theory Spec2Isabelle
  imports Main "HOL-Library.Word"
begin

unbundle bit_operations_syntax

section \<open>Data model of the coroutine scheduler (coroutine.c)\<close>

text \<open>
  Pointers and \<open>ulong\<close> are 64-bit words; the null pointer is 0. An \<open>atomic_t\<close> is a
  32-bit word: \<open>atomic_inc\<close> and \<open>atomic_dec_and_test\<close> wrap around, and the code only
  ever tests such a counter against zero.
\<close>

type_synonym ulong = "64 word"
type_synonym atomic_t = "32 word"

text \<open>
  The constants of \<open>coroutine.h\<close> (the header is not among the sources) are parameters
  of every function that uses them.
\<close>

record config =
  COROUTINE_MAGIC :: ulong
  COROUTINE_STACK_BOTTOM_MAGIC :: ulong
  COROUTINE_STACK_TOP_MAGIC :: ulong
  COROUTINE_STACK_SHIFT :: nat
  COROUTINE_STACK_SIZE :: ulong
  COROUTINE_PAGE_SIZE :: ulong

text \<open>
  A saved context is the pair of an instruction pointer and a stack pointer. The
  instruction pointer of a suspended coroutine is one of three places: the entry of
  \<open>coroutine_trampoline\<close> (set by \<open>coroutine_start\<close>), a yield inside the user function
  (with the frame of the call: function, coroutine, argument, and the resume point inside
  the function), or the final yield of the trampoline, after which nothing follows.
\<close>

datatype kernel_rip =
    RipUnset
  | RipTrampoline
  | RipInFun ulong ulong ulong nat
  | RipFinalYield

record kernel_context =
  rip :: kernel_rip
  rsp :: ulong

text \<open>
  \<open>struct coroutine\<close>. The list link \<open>co_list_entry\<close> is kept as the boolean
  "\<open>list_empty(&co->co_list_entry)\<close> is false"; the ready list itself is the sequence
  \<open>co_list\<close> of the thread.
\<close>

record coroutine =
  magic :: ulong
  thread :: ulong
  stack :: ulong
  ctx :: kernel_context
  co_fun :: ulong
  arg :: ulong
  ret :: ulong
  running :: bool
  ref_count :: atomic_t
  signaled :: atomic_t
  co_list_entry :: bool

record coroutine_thread =
  co_list :: "ulong list"
  co_list_lock :: bool
  thread_signaled :: atomic_t
  stopping :: bool
  task :: ulong
  cpu :: nat

text \<open>\<open>struct tlb_con\<close> and the fields of \<open>struct tlb_server\<close> that server.c uses.\<close>

record tlb_con =
  con_sock :: ulong
  con_co :: ulong
  con_srv :: ulong

record tlb_server =
  srv_host :: string
  srv_port :: int
  listen_sock :: ulong
  con_thread :: ulong
  listen_thread :: ulong
  srv_stopping :: bool
  listen_thread_stopping :: bool

text \<open>
  What the code does, in program order: lock and unlock of a thread's \<open>co_list_lock\<close>,
  list operations on a coroutine's link, \<open>kfree\<close>, \<open>wake_up_interruptible\<close>, the context
  switch into a coroutine, the call of the user function by the trampoline, the two
  stores of the trampoline after the call (\<open>co->ret\<close> and \<open>co->running = false\<close>), a yield
  back to the worker, and the calls into the socket and thread layers.
\<close>

datatype event =
    EvLock ulong
  | EvUnlock ulong
  | EvListAddTail ulong
  | EvListDel ulong
  | EvKfree ulong
  | EvWake ulong
  | EvEnter ulong
  | EvInvoke ulong ulong ulong
  | EvStoreRet ulong ulong
  | EvClearRunning ulong
  | EvYield ulong
  | EvSockListen string int
  | EvSockAccept ulong
  | EvSockRelease ulong
  | EvSleep
  | EvKthreadCreate ulong
  | EvKthreadStop ulong
  | EvWakeUpProcess ulong

text \<open>
  The state: the coroutine objects that are allocated, the threads, the memory words of
  the stacks (indexed by the address of the word), the connection objects, the servers,
  and the events so far.
\<close>

record state =
  cos :: "ulong \<rightharpoonup> coroutine"
  threads :: "ulong \<Rightarrow> coroutine_thread"
  mem :: "ulong \<Rightarrow> ulong"
  cons :: "ulong \<rightharpoonup> tlb_con"
  srvs :: "ulong \<Rightarrow> tlb_server"
  trace :: "event list"

text \<open>
  A \<open>BUG_ON\<close> that fires is the error \<open>BUG\<close> with its line in the source; the access
  to an object that is not allocated is \<open>BadPtr\<close>; a jump to a context that holds no
  resumable code is \<open>BadJump\<close>; a loop that has used up its fuel, or that spins for
  ever, is \<open>OutOfFuel\<close>. An error keeps the state in which it happened.
\<close>

datatype error = BUG nat | BadPtr | BadJump | OutOfFuel

type_synonym 'a res = "(error \<times> state) + ('a \<times> state)"

definition bind :: "'a res \<Rightarrow> ('a \<Rightarrow> state \<Rightarrow> 'b res) \<Rightarrow> 'b res" where
  "bind r f = (case r of Inl e \<Rightarrow> Inl e | Inr (a, s) \<Rightarrow> f a s)"

definition ok :: "state \<Rightarrow> unit res" where
  "ok s = Inr ((), s)"

definition res_state :: "'a res \<Rightarrow> state" where
  "res_state r = (case r of Inl (e, s) \<Rightarrow> s | Inr (a, s) \<Rightarrow> s)"

definition get_co :: "ulong \<Rightarrow> state \<Rightarrow> coroutine res" where
  "get_co p s = (case cos s p of None \<Rightarrow> Inl (BadPtr, s) | Some c \<Rightarrow> Inr (c, s))"

definition put_co :: "ulong \<Rightarrow> coroutine \<Rightarrow> state \<Rightarrow> state" where
  "put_co p c s = s\<lparr>cos := (cos s)(p \<mapsto> c)\<rparr>"

definition put_thread :: "ulong \<Rightarrow> coroutine_thread \<Rightarrow> state \<Rightarrow> state" where
  "put_thread t th s = s\<lparr>threads := (threads s)(t := th)\<rparr>"

definition emit :: "event \<Rightarrow> state \<Rightarrow> state" where
  "emit e s = s\<lparr>trace := trace s @ [e]\<rparr>"

subsection \<open>Kernel primitives\<close>

definition spin_lock_irqsave :: "ulong \<Rightarrow> state \<Rightarrow> state" where
  "spin_lock_irqsave t s = emit (EvLock t) (put_thread t ((threads s t)\<lparr>co_list_lock := True\<rparr>) s)"

definition spin_unlock_irqrestore :: "ulong \<Rightarrow> state \<Rightarrow> state" where
  "spin_unlock_irqrestore t s =
     emit (EvUnlock t) (put_thread t ((threads s t)\<lparr>co_list_lock := False\<rparr>) s)"

text \<open>
  \<open>list_del_init(&co->co_list_entry)\<close>: the entry leaves the list it is linked into (a
  coroutine is only ever added to the list of its own thread) and becomes empty.
\<close>

definition list_del_init :: "ulong \<Rightarrow> state \<Rightarrow> unit res" where
  "list_del_init p s =
     bind (get_co p s) (\<lambda>c s.
       let t = thread c; th = threads s t
       in ok (emit (EvListDel p)
               (put_co p (c\<lparr>co_list_entry := False\<rparr>)
                  (put_thread t (th\<lparr>co_list := removeAll p (co_list th)\<rparr>) s))))"

definition list_add_tail :: "ulong \<Rightarrow> ulong \<Rightarrow> state \<Rightarrow> unit res" where
  "list_add_tail p t s =
     bind (get_co p s) (\<lambda>c s.
       let th = threads s t
       in ok (emit (EvListAddTail p)
               (put_co p (c\<lparr>co_list_entry := True\<rparr>)
                  (put_thread t (th\<lparr>co_list := co_list th @ [p]\<rparr>) s))))"

text \<open>\<open>kfree\<close> of a block of bytes, and of a coroutine object.\<close>

definition kfree :: "ulong \<Rightarrow> state \<Rightarrow> state" where
  "kfree p s = emit (EvKfree p) s"

definition kfree_co :: "ulong \<Rightarrow> state \<Rightarrow> state" where
  "kfree_co p s = kfree p (s\<lparr>cos := (cos s)(p := None)\<rparr>)"

text \<open>The three words of a stack that the code reads and writes.\<close>

definition stack_bottom :: "ulong \<Rightarrow> ulong" where
  "stack_bottom stk = stk"

definition stack_top :: "config \<Rightarrow> ulong \<Rightarrow> ulong" where
  "stack_top cfg stk = stk + COROUTINE_STACK_SIZE cfg - 8"

definition stack_self :: "config \<Rightarrow> ulong \<Rightarrow> ulong" where
  "stack_self cfg stk = stk + COROUTINE_STACK_SIZE cfg - 2 * 8"

subsection \<open>Creation, reference counting, destruction\<close>

text \<open>
  \<open>coroutine_create\<close>; \<open>pco\<close> and \<open>pstack\<close> are what the two calls of \<open>kmalloc\<close>
  return (0 when the allocation fails).
\<close>

definition coroutine_create :: "config \<Rightarrow> ulong \<Rightarrow> ulong \<Rightarrow> ulong \<Rightarrow> state \<Rightarrow> ulong res" where
  "coroutine_create cfg thr pco pstack s =
     (if pco = 0 then Inr (0, s)
      else
        let c = \<lparr>magic = COROUTINE_MAGIC cfg, thread = thr, stack = pstack,
                 ctx = \<lparr>rip = RipUnset, rsp = 0\<rparr>, co_fun = 0, arg = 0, ret = 0,
                 running = False, ref_count = 1, signaled = 0, co_list_entry = False\<rparr>;
            s1 = put_co pco c s
        in if pstack = 0 then Inr (0, kfree_co pco s1)
           else if pstack AND (COROUTINE_PAGE_SIZE cfg - 1) \<noteq> 0 then Inl (BUG 22, s1)
           else Inr (pco,
             s1\<lparr>mem := (mem s1)
                   (stack_bottom pstack := COROUTINE_STACK_BOTTOM_MAGIC cfg,
                    stack_top cfg pstack := COROUTINE_STACK_TOP_MAGIC cfg,
                    stack_self cfg pstack := pco)\<rparr>))"

definition coroutine_ref :: "ulong \<Rightarrow> state \<Rightarrow> unit res" where
  "coroutine_ref p s =
     bind (get_co p s) (\<lambda>c s. ok (put_co p (c\<lparr>ref_count := ref_count c + 1\<rparr>) s))"

definition coroutine_delete :: "config \<Rightarrow> ulong \<Rightarrow> state \<Rightarrow> unit res" where
  "coroutine_delete cfg p s =
     bind (get_co p s) (\<lambda>c s.
       if magic c \<noteq> COROUTINE_MAGIC cfg then Inl (BUG 42, s)
       else if mem s (stack_bottom (stack c)) \<noteq> COROUTINE_STACK_BOTTOM_MAGIC cfg
         then Inl (BUG 43, s)
       else if mem s (stack_top cfg (stack c)) \<noteq> COROUTINE_STACK_TOP_MAGIC cfg
         then Inl (BUG 44, s)
       else if ref_count c \<noteq> 0 then Inl (BUG 45, s)
       else
         bind (list_del_init p (spin_lock_irqsave (thread c) s)) (\<lambda>_ s.
           ok (kfree_co p (kfree (stack c) (spin_unlock_irqrestore (thread c) s)))))"

definition coroutine_deref :: "config \<Rightarrow> ulong \<Rightarrow> state \<Rightarrow> unit res" where
  "coroutine_deref cfg p s =
     bind (get_co p s) (\<lambda>c s.
       let s1 = put_co p (c\<lparr>ref_count := ref_count c - 1\<rparr>) s
       in if ref_count c - 1 = 0 then coroutine_delete cfg p s1 else ok s1)"

subsection \<open>Signalling\<close>

definition coroutine_signal :: "ulong \<Rightarrow> state \<Rightarrow> unit res" where
  "coroutine_signal p s =
     bind (get_co p s) (\<lambda>c s.
       let t = thread c;
           s1 = spin_lock_irqsave t (put_co p (c\<lparr>signaled := signaled c + 1\<rparr>) s)
       in bind (if \<not> co_list_entry c
                then bind (coroutine_ref p s1) (\<lambda>_ s. list_add_tail p t s)
                else ok s1) (\<lambda>_ s.
            let s3 = spin_unlock_irqrestore t s;
                th = threads s3 t;
                s4 = put_thread t (th\<lparr>thread_signaled := thread_signaled th + 1\<rparr>) s3
            in ok (emit (EvWake t) s4)))"

definition coroutine_cancel :: "ulong \<Rightarrow> state \<Rightarrow> unit res" where
  "coroutine_cancel p s =
     bind (get_co p s) (\<lambda>c s. coroutine_signal p (put_co p (c\<lparr>running := False\<rparr>) s))"

definition coroutine_start :: "config \<Rightarrow> ulong \<Rightarrow> ulong \<Rightarrow> ulong \<Rightarrow> state \<Rightarrow> unit res" where
  "coroutine_start cfg p f a s =
     bind (get_co p s) (\<lambda>c s.
       if magic c \<noteq> COROUTINE_MAGIC cfg then Inl (BUG 88, s)
       else coroutine_signal p
              (put_co p (c\<lparr>co_fun := f, arg := a,
                           ctx := \<lparr>rip = RipTrampoline, rsp = stack_self cfg (stack c)\<rparr>,
                           running := True\<rparr>) s))"

subsection \<open>User functions\<close>

text \<open>
  The function that \<open>coroutine_start\<close> is given is code outside the scheduler. It is a
  parameter \<open>code\<close> of the scheduler's functions: \<open>code f pc p a s\<close> is what the function
  at address \<open>f\<close>, called with coroutine \<open>p\<close> and argument \<open>a\<close>, does from its resume point
  \<open>pc\<close> (0 is the entry) in state \<open>s\<close> until it yields or returns: the calls it makes into
  the coroutine interface, in order, and then either the resume point of the yield, the
  returned value, the line of a \<open>BUG_ON\<close> of its own that fires, or the access to an
  object that is not allocated.
\<close>

datatype action =
    ActRef ulong
  | ActDeref ulong
  | ActSignal ulong
  | ActCancel ulong
  | ActSockRelease ulong

datatype outcome = Yield nat | Return ulong | UserBUG nat | UserBadPtr

type_synonym usercode = "ulong \<Rightarrow> nat \<Rightarrow> ulong \<Rightarrow> ulong \<Rightarrow> state \<Rightarrow> action list \<times> outcome"

definition do_action :: "config \<Rightarrow> action \<Rightarrow> state \<Rightarrow> unit res" where
  "do_action cfg a s =
     (case a of
        ActRef p \<Rightarrow> coroutine_ref p s
      | ActDeref p \<Rightarrow> coroutine_deref cfg p s
      | ActSignal p \<Rightarrow> coroutine_signal p s
      | ActCancel p \<Rightarrow> coroutine_cancel p s
      | ActSockRelease k \<Rightarrow> ok (emit (EvSockRelease k) s))"

fun run_actions :: "config \<Rightarrow> action list \<Rightarrow> state \<Rightarrow> unit res" where
  "run_actions cfg [] s = ok s"
| "run_actions cfg (a # as) s = bind (do_action cfg a s) (\<lambda>_ s. run_actions cfg as s)"

subsection \<open>Context switches\<close>

text \<open>
  Modelled from the spec: \<open>coroutine_yield\<close> is declared in \<open>coroutine.h\<close>, which is not
  among the sources. The spec: "Performs \<open>ctx_save(self.ctx)\<close>; if it returns 0,
  \<open>ctx_restore(thread.worker_ctx, 1)\<close> -- returning control to the scheduler loop. A
  subsequent resume causes \<open>ctx_save\<close> to return nonzero and \<open>yield\<close> to return." The
  saved instruction pointer is the place \<open>k\<close> of the yield; control is back in
  \<open>coroutine_enter\<close> when the function returns.
\<close>

definition coroutine_yield :: "ulong \<Rightarrow> kernel_rip \<Rightarrow> state \<Rightarrow> unit res" where
  "coroutine_yield p k s =
     bind (get_co p s) (\<lambda>c s. ok (emit (EvYield p) (put_co p (c\<lparr>ctx := (ctx c)\<lparr>rip := k\<rparr>\<rparr>) s)))"

text \<open>Lines 75 to 83 of \<open>coroutine_trampoline\<close>: what follows the return of the user function.\<close>

definition trampoline_finish :: "config \<Rightarrow> ulong \<Rightarrow> ulong \<Rightarrow> state \<Rightarrow> unit res" where
  "trampoline_finish cfg p v s =
     bind (get_co p s) (\<lambda>c s.
       let s1 = emit (EvStoreRet p v) (put_co p (c\<lparr>ret := v\<rparr>) s)
       in if magic c \<noteq> COROUTINE_MAGIC cfg then Inl (BUG 77, s1)
          else if mem s1 (stack_bottom (stack c)) \<noteq> COROUTINE_STACK_BOTTOM_MAGIC cfg
            then Inl (BUG 78, s1)
          else if mem s1 (stack_top cfg (stack c)) \<noteq> COROUTINE_STACK_TOP_MAGIC cfg
            then Inl (BUG 79, s1)
          else coroutine_yield p RipFinalYield
                 (emit (EvClearRunning p) (put_co p (c\<lparr>ret := v, running := False\<rparr>) s1)))"

text \<open>
  The user function \<open>f\<close>, called or resumed at \<open>pc\<close> in the frame of the trampoline of
  coroutine \<open>p\<close>: it runs until it yields (the context of \<open>p\<close> is saved inside the
  function) or returns into the trampoline.
\<close>

definition run_fun :: "config \<Rightarrow> usercode \<Rightarrow> ulong \<Rightarrow> ulong \<Rightarrow> ulong \<Rightarrow> nat \<Rightarrow> state \<Rightarrow> unit res" where
  "run_fun cfg code f p a pc s =
     (case code f pc p a s of (acts, out) \<Rightarrow>
        bind (run_actions cfg acts s) (\<lambda>_ s.
          case out of
            Yield pc' \<Rightarrow> coroutine_yield p (RipInFun f p a pc') s
          | Return v \<Rightarrow> trampoline_finish cfg p v s
          | UserBUG l \<Rightarrow> Inl (BUG l, s)
          | UserBadPtr \<Rightarrow> Inl (BadPtr, s)))"

text \<open>Lines 65 to 75 of \<open>coroutine_trampoline\<close>; \<open>sp\<close> is what \<open>kernel_get_rsp\<close> returns.\<close>

definition coroutine_trampoline :: "config \<Rightarrow> usercode \<Rightarrow> ulong \<Rightarrow> state \<Rightarrow> unit res" where
  "coroutine_trampoline cfg code sp s =
     (let stk = push_bit (COROUTINE_STACK_SHIFT cfg) (drop_bit (COROUTINE_STACK_SHIFT cfg) sp);
          p = mem s (stk + COROUTINE_STACK_SIZE cfg - 2 * 8)
      in bind (get_co p s) (\<lambda>c s.
           if magic c \<noteq> COROUTINE_MAGIC cfg then Inl (BUG 71, s)
           else if mem s (stack_bottom (stack c)) \<noteq> COROUTINE_STACK_BOTTOM_MAGIC cfg
             then Inl (BUG 72, s)
           else if mem s (stack_top cfg (stack c)) \<noteq> COROUTINE_STACK_TOP_MAGIC cfg
             then Inl (BUG 73, s)
           else run_fun cfg code (co_fun c) p (arg c) 0
                  (emit (EvInvoke (co_fun c) p (arg c)) s)))"

text \<open>
  \<open>coroutine_enter\<close>: the worker's context is saved and the context of the coroutine is
  restored; the function returns when the coroutine yields.
\<close>

definition coroutine_enter :: "config \<Rightarrow> usercode \<Rightarrow> ulong \<Rightarrow> state \<Rightarrow> unit res" where
  "coroutine_enter cfg code p s =
     bind (get_co p s) (\<lambda>c s.
       if magic c \<noteq> COROUTINE_MAGIC cfg then Inl (BUG 101, s)
       else if \<not> running c then Inl (BUG 102, s)
       else
         let s1 = emit (EvEnter p) s
         in case rip (ctx c) of
              RipTrampoline \<Rightarrow> coroutine_trampoline cfg code (rsp (ctx c)) s1
            | RipInFun f q a pc \<Rightarrow> run_fun cfg code f q a pc s1
            | RipFinalYield \<Rightarrow> Inl (BadJump, s1)
            | RipUnset \<Rightarrow> Inl (BadJump, s1))"

subsection \<open>The worker\<close>

text \<open>The \<open>while\<close> loop of \<open>coroutine_thread_next_coroutine\<close> over the entries \<open>ps\<close>.\<close>

fun next_coroutine_walk :: "ulong list \<Rightarrow> state \<Rightarrow> ulong res" where
  "next_coroutine_walk [] s = Inr (0, s)"
| "next_coroutine_walk (p # ps) s =
     bind (get_co p s) (\<lambda>c s.
       if ref_count c \<noteq> 0 then Inr (p, put_co p (c\<lparr>ref_count := ref_count c + 1\<rparr>) s)
       else next_coroutine_walk ps s)"

text \<open>
  \<open>coroutine_thread_next_coroutine\<close>. The entries that follow \<open>prev\<close> are the rest of the
  ready list after it; the link of a \<open>prev\<close> that is in no list points to itself, so the
  walk meets \<open>prev\<close> again and again.
\<close>

definition coroutine_thread_next_coroutine :: "config \<Rightarrow> ulong \<Rightarrow> ulong \<Rightarrow> state \<Rightarrow> ulong res" where
  "coroutine_thread_next_coroutine cfg t prev s =
     (if prev = 0 \<and> co_list (threads s t) = [] then Inr (0, s)
      else
        let s1 = spin_lock_irqsave t s
        in bind (if prev = 0 then next_coroutine_walk (co_list (threads s1 t)) s1
                 else bind (get_co prev s1) (\<lambda>c s.
                        if co_list_entry c
                        then next_coroutine_walk
                               (tl (dropWhile (\<lambda>x. x \<noteq> prev) (co_list (threads s t)))) s
                        else if ref_count c \<noteq> 0 then next_coroutine_walk [prev] s
                        else Inl (OutOfFuel, s))) (\<lambda>r s.
             let s2 = spin_unlock_irqrestore t s
             in if prev \<noteq> 0 then bind (coroutine_deref cfg prev s2) (\<lambda>_ s. Inr (r, s))
                else Inr (r, s2)))"

definition dec_and_test_signaled :: "ulong \<Rightarrow> state \<Rightarrow> bool res" where
  "dec_and_test_signaled p s =
     bind (get_co p s) (\<lambda>c s.
       Inr (signaled c - 1 = 0, put_co p (c\<lparr>signaled := signaled c - 1\<rparr>) s))"

definition dec_and_test_thread_signaled :: "ulong \<Rightarrow> state \<Rightarrow> bool res" where
  "dec_and_test_thread_signaled t s =
     (let th = threads s t
      in Inr (thread_signaled th - 1 = 0,
              put_thread t (th\<lparr>thread_signaled := thread_signaled th - 1\<rparr>) s))"

definition list_empty_entry :: "ulong \<Rightarrow> state \<Rightarrow> bool res" where
  "list_empty_entry p s = bind (get_co p s) (\<lambda>c s. Inr (\<not> co_list_entry c, s))"

text \<open>Lines 177 to 189: the coroutine \<open>p\<close> leaves the ready list or goes to its tail.\<close>

definition requeue :: "config \<Rightarrow> ulong \<Rightarrow> ulong \<Rightarrow> state \<Rightarrow> unit res" where
  "requeue cfg t p s =
     bind (dec_and_test_signaled p s) (\<lambda>z s.
       if z then
         bind (list_empty_entry p (spin_lock_irqsave t s)) (\<lambda>e s.
           if e then Inl (BUG 179, s)
           else bind (list_del_init p s) (\<lambda>_ s.
                  coroutine_deref cfg p (spin_unlock_irqrestore t s)))
       else
         bind (list_empty_entry p (spin_lock_irqsave t s)) (\<lambda>e s.
           if e then Inl (BUG 185, s)
           else bind (list_del_init p s) (\<lambda>_ s.
                  bind (list_add_tail p t s) (\<lambda>_ s.
                    ok (spin_unlock_irqrestore t s)))))"

text \<open>The loop \<open>while (co != NULL)\<close> of \<open>coroutine_thread_routine\<close>, lines 171 to 192.\<close>

fun co_loop :: "nat \<Rightarrow> config \<Rightarrow> usercode \<Rightarrow> ulong \<Rightarrow> ulong \<Rightarrow> state \<Rightarrow> unit res" where
  "co_loop 0 cfg code t p s = (if p = 0 then ok s else Inl (OutOfFuel, s))"
| "co_loop (Suc n) cfg code t p s =
     (if p = 0 then ok s
      else
        bind (get_co p s) (\<lambda>c s.
          bind (if running c then coroutine_enter cfg code p s else ok s) (\<lambda>_ s.
            bind (coroutine_thread_next_coroutine cfg t p s) (\<lambda>next_co s.
              bind (requeue cfg t p s) (\<lambda>_ s.
                co_loop n cfg code t next_co s)))))"

text \<open>The inner \<open>for (;;)\<close> of \<open>coroutine_thread_routine\<close>, lines 169 to 195.\<close>

fun drain_loop :: "nat \<Rightarrow> config \<Rightarrow> usercode \<Rightarrow> ulong \<Rightarrow> state \<Rightarrow> unit res" where
  "drain_loop 0 cfg code t s = Inl (OutOfFuel, s)"
| "drain_loop (Suc n) cfg code t s =
     bind (coroutine_thread_next_coroutine cfg t 0 s) (\<lambda>p s.
       bind (co_loop (Suc n) cfg code t p s) (\<lambda>_ s.
         bind (dec_and_test_thread_signaled t s) (\<lambda>z s.
           if z then ok s else drain_loop n cfg code t s)))"

text \<open>
  \<open>coroutine_thread_routine\<close>. The worker that finds the condition of
  \<open>wait_event_interruptible\<close> false sleeps: the function gives \<open>Parked\<close>, and the state is
  the one in which the worker waits for a producer.
\<close>

datatype worker = Parked | Exited int

fun coroutine_thread_routine :: "nat \<Rightarrow> config \<Rightarrow> usercode \<Rightarrow> ulong \<Rightarrow> state \<Rightarrow> worker res" where
  "coroutine_thread_routine 0 cfg code t s = Inl (OutOfFuel, s)"
| "coroutine_thread_routine (Suc n) cfg code t s =
     (let th = threads s t
      in if \<not> (stopping th \<or> thread_signaled th \<noteq> 0) then Inr (Parked, s)
         else if stopping th then Inr (Exited 0, s)
         else bind (drain_loop (Suc n) cfg code t s) (\<lambda>_ s.
                coroutine_thread_routine n cfg code t s))"

subsection \<open>Waiting for another coroutine\<close>

text \<open>
  \<open>coroutine_wait\<close>. What a call of \<open>coroutine_yield(self)\<close> does to the state until it
  returns (the worker runs other coroutines and enters \<open>self\<close> again) is the parameter
  \<open>yield\<close>. The number of iterations is bounded by the fuel.
\<close>

fun coroutine_wait :: "nat \<Rightarrow> (ulong \<Rightarrow> state \<Rightarrow> unit res) \<Rightarrow> ulong \<Rightarrow> ulong \<Rightarrow> state \<Rightarrow> ulong res" where
  "coroutine_wait 0 yield self p s = Inl (OutOfFuel, s)"
| "coroutine_wait (Suc n) yield self p s =
     bind (get_co p s) (\<lambda>c s.
       if running c then bind (yield self s) (\<lambda>_ s. coroutine_wait n yield self p s)
       else Inr (ret c, s))"

subsection \<open>Start and stop of a worker\<close>

definition IS_ERR :: "ulong \<Rightarrow> bool" where
  "IS_ERR p = (- 4095 \<le> p)"

definition PTR_ERR :: "ulong \<Rightarrow> int" where
  "PTR_ERR p = sint p"

text \<open>\<open>coroutine_thread_start\<close>; \<open>tsk\<close> is what \<open>kthread_create\<close> returns.\<close>

definition coroutine_thread_start :: "ulong \<Rightarrow> nat \<Rightarrow> ulong \<Rightarrow> state \<Rightarrow> int res" where
  "coroutine_thread_start t cpuno tsk s =
     (let th = \<lparr>co_list = [], co_list_lock = False, thread_signaled = 0, stopping = False,
                task = 0, cpu = 0\<rparr>;
          s1 = emit (EvKthreadCreate tsk) (put_thread t th s)
      in if IS_ERR tsk then Inr (PTR_ERR tsk, s1)
         else Inr (0, emit (EvWakeUpProcess tsk) (put_thread t (th\<lparr>task := tsk, cpu := cpuno\<rparr>) s1)))"

fun stop_loop :: "config \<Rightarrow> ulong list \<Rightarrow> state \<Rightarrow> unit res" where
  "stop_loop cfg [] s = ok s"
| "stop_loop cfg (p # ps) s =
     bind (list_del_init p s) (\<lambda>_ s.
       bind (coroutine_deref cfg p s) (\<lambda>_ s. stop_loop cfg ps s))"

definition coroutine_thread_stop :: "config \<Rightarrow> ulong \<Rightarrow> state \<Rightarrow> unit res" where
  "coroutine_thread_stop cfg t s =
     (let th = threads s t;
          s1 = emit (EvKthreadStop (task th)) (emit (EvWake t) (put_thread t (th\<lparr>stopping := True\<rparr>) s));
          s2 = spin_lock_irqsave t s1;
          spliced = co_list (threads s2 t);
          s3 = spin_unlock_irqrestore t (put_thread t ((threads s2 t)\<lparr>co_list := []\<rparr>) s2)
      in stop_loop cfg spliced s3)"

section \<open>The server (server.c)\<close>

definition get_con :: "ulong \<Rightarrow> state \<Rightarrow> tlb_con res" where
  "get_con p s = (case cons s p of None \<Rightarrow> Inl (BadPtr, s) | Some c \<Rightarrow> Inr (c, s))"

definition put_con :: "ulong \<Rightarrow> tlb_con \<Rightarrow> state \<Rightarrow> state" where
  "put_con p c s = s\<lparr>cons := (cons s)(p \<mapsto> c)\<rparr>"

definition put_srv :: "ulong \<Rightarrow> tlb_server \<Rightarrow> state \<Rightarrow> state" where
  "put_srv p sv s = s\<lparr>srvs := (srvs s)(p := sv)\<rparr>"

definition kfree_con :: "ulong \<Rightarrow> state \<Rightarrow> state" where
  "kfree_con p s = kfree p (s\<lparr>cons := (cons s)(p := None)\<rparr>)"

definition ksock_release :: "ulong \<Rightarrow> state \<Rightarrow> state" where
  "ksock_release k s = emit (EvSockRelease k) s"

definition tlb_con_delete :: "config \<Rightarrow> ulong \<Rightarrow> state \<Rightarrow> unit res" where
  "tlb_con_delete cfg pcon s =
     bind (get_con pcon s) (\<lambda>con s.
       bind (coroutine_deref cfg (con_co con) s) (\<lambda>_ s.
         bind (get_con pcon s) (\<lambda>con s.
           ok (if con_sock con \<noteq> 0 then ksock_release (con_sock con) s else s))))"

text \<open>
  \<open>tlb_con_coroutine\<close>, the user function of a connection, in the form in which the
  worker runs user functions: it never yields.
\<close>

definition tlb_con_coroutine :: "ulong \<Rightarrow> ulong \<Rightarrow> state \<Rightarrow> action list \<times> outcome" where
  "tlb_con_coroutine p a s =
     (case cons s a of
        None \<Rightarrow> ([], UserBadPtr)
      | Some con \<Rightarrow>
          if con_co con \<noteq> p then ([], UserBUG 41)
          else (ActDeref (con_co con) #
                  (if con_sock con \<noteq> 0 then [ActSockRelease (con_sock con)] else []),
                Return 0))"

text \<open>\<open>tlb_con_create\<close>; \<open>pcon\<close>, \<open>pco\<close> and \<open>pstack\<close> are the results of \<open>kmalloc\<close>.\<close>

definition tlb_con_create :: "config \<Rightarrow> ulong \<Rightarrow> ulong \<Rightarrow> ulong \<Rightarrow> ulong \<Rightarrow> state \<Rightarrow> ulong res" where
  "tlb_con_create cfg psrv pcon pco pstack s =
     (if pcon = 0 then Inr (0, s)
      else
        let con = \<lparr>con_sock = 0, con_co = 0, con_srv = psrv\<rparr>
        in bind (coroutine_create cfg (con_thread (srvs s psrv)) pco pstack (put_con pcon con s))
             (\<lambda>r s. if r = 0 then Inr (0, kfree_con pcon (put_con pcon (con\<lparr>con_co := r\<rparr>) s))
                    else Inr (pcon, put_con pcon (con\<lparr>con_co := r\<rparr>) s)))"

text \<open>\<open>tlb_con_start\<close>; \<open>fptr\<close> is the address of \<open>tlb_con_coroutine\<close>.\<close>

definition tlb_con_start :: "config \<Rightarrow> ulong \<Rightarrow> ulong \<Rightarrow> ulong \<Rightarrow> state \<Rightarrow> unit res" where
  "tlb_con_start cfg fptr pcon sk s =
     bind (get_con pcon s) (\<lambda>con s.
       coroutine_start cfg (con_co con) fptr pcon (put_con pcon (con\<lparr>con_sock := sk\<rparr>) s))"

text \<open>
  What the outside gives to one iteration of the listener's loop: the value of
  \<open>kthread_should_stop()\<close>, the results of the three allocations, and the result of
  \<open>ksock_accept\<close> with the socket it stores.
\<close>

record accept_env =
  should_stop :: bool
  alloc_con :: ulong
  alloc_co :: ulong
  alloc_stack :: ulong
  accept_r :: int
  accept_sock :: ulong

text \<open>
  \<open>tlb_server_listen_thread_routine\<close>, one element of the list for each iteration; the
  loop that has outlived the list is still running.
\<close>

fun tlb_server_listen_thread_routine ::
  "config \<Rightarrow> ulong \<Rightarrow> ulong \<Rightarrow> accept_env list \<Rightarrow> state \<Rightarrow> int res" where
  "tlb_server_listen_thread_routine cfg fptr psrv [] s = Inl (OutOfFuel, s)"
| "tlb_server_listen_thread_routine cfg fptr psrv (e # es) s =
     (if \<not> should_stop e \<and> \<not> srv_stopping (srvs s psrv) then
        bind (tlb_con_create cfg psrv (alloc_con e) (alloc_co e) (alloc_stack e) s) (\<lambda>pcon s.
          if pcon = 0
          then Inr (0, put_srv psrv ((srvs s psrv)\<lparr>listen_thread_stopping := True\<rparr>) s)
          else
            let s1 = emit (EvSockAccept (listen_sock (srvs s psrv))) s
            in if accept_r e \<noteq> 0
               then bind (tlb_con_delete cfg pcon s1) (\<lambda>_ s.
                      tlb_server_listen_thread_routine cfg fptr psrv es s)
               else bind (tlb_con_start cfg fptr pcon (accept_sock e) s1) (\<lambda>_ s.
                      tlb_server_listen_thread_routine cfg fptr psrv es s))
      else Inr (0, put_srv psrv ((srvs s psrv)\<lparr>listen_thread_stopping := True\<rparr>) s))"

text \<open>The two error numbers that server.c names, with their values in Linux.\<close>

definition EINVAL :: int where
  "EINVAL = 22"

definition EADDRINUSE :: int where
  "EADDRINUSE = 98"

text \<open>
  The kernel's \<open>snprintf(buf, sz, "%s", str)\<close>: at most \<open>sz - 1\<close> characters are
  stored, and the value returned is the number of characters that the whole string
  needs, without the final zero, as in ISO C99.
\<close>

definition snprintf_s :: "nat \<Rightarrow> string \<Rightarrow> string \<times> int" where
  "snprintf_s sz str = (take (sz - 1) str, int (length str))"

definition strlen :: "string \<Rightarrow> int" where
  "strlen str = int (length str)"

text \<open>
  What the outside gives to \<open>tlb_server_start\<close>: the number of elements of
  \<open>srv->host\<close> (the declaration is in \<open>tlb_server.h\<close>, not among the sources), the result
  of each call of \<open>ksock_listen_host\<close> with the socket it stores, and the results of the
  two calls of \<open>kthread_create\<close>.
\<close>

record start_env =
  host_size :: nat
  listen_result :: "nat \<Rightarrow> int \<times> ulong"
  worker_task :: ulong
  listener_task :: ulong

text \<open>The loop \<open>for (i = 0; i < 5; i++)\<close>, with \<open>k\<close> iterations left and \<open>r\<close> the last result.\<close>

fun listen_loop :: "nat \<Rightarrow> nat \<Rightarrow> start_env \<Rightarrow> ulong \<Rightarrow> int \<Rightarrow> state \<Rightarrow> int res" where
  "listen_loop 0 i env psrv r s = Inr (r, s)"
| "listen_loop (Suc k) i env psrv r s =
     (let sv = srvs s psrv;
          s1 = emit (EvSockListen (srv_host sv) (srv_port sv)) s;
          r1 = fst (listen_result env i)
      in if r1 \<noteq> 0 then
           (if r1 = - EADDRINUSE then listen_loop k (Suc i) env psrv r1 (emit EvSleep s1)
            else listen_loop k (Suc i) env psrv r1 s1)
         else Inr (r1, put_srv psrv (sv\<lparr>listen_sock := snd (listen_result env i)\<rparr>) s1))"

definition tlb_server_start :: "config \<Rightarrow> start_env \<Rightarrow> ulong \<Rightarrow> string \<Rightarrow> int \<Rightarrow> state \<Rightarrow> int res" where
  "tlb_server_start cfg env psrv hst prt s =
     (let sv = \<lparr>srv_host = [], srv_port = 0, listen_sock = 0,
                con_thread = con_thread (srvs s psrv), listen_thread = 0,
                srv_stopping = False, listen_thread_stopping = False\<rparr>;
          (written, n) = snprintf_s (host_size env) hst;
          s1 = put_srv psrv (sv\<lparr>srv_host := written\<rparr>) s
      in if n \<noteq> strlen hst then Inr (EINVAL, s1)
         else
           bind (listen_loop 5 0 env psrv 0 (put_srv psrv (sv\<lparr>srv_host := written, srv_port := prt\<rparr>) s1))
             (\<lambda>r s.
               if r \<noteq> 0 then Inr (r, s)
               else bind (coroutine_thread_start (con_thread (srvs s psrv)) 0 (worker_task env) s)
                 (\<lambda>r s.
                   if r \<noteq> 0 then Inr (r, ksock_release (listen_sock (srvs s psrv)) s)
                   else
                     let s2 = emit (EvKthreadCreate (listener_task env))
                                (put_srv psrv ((srvs s psrv)\<lparr>listen_thread := listener_task env\<rparr>) s)
                     in if IS_ERR (listener_task env)
                        then bind (coroutine_thread_stop cfg (con_thread (srvs s2 psrv)) s2) (\<lambda>_ s.
                               Inr (PTR_ERR (listener_task env),
                                    ksock_release (listen_sock (srvs s psrv)) s))
                        else Inr (0, emit (EvWakeUpProcess (listener_task env)) s2))))"

section \<open>Scenarios and example states\<close>

text \<open>\<open>n\<close> calls of \<open>coroutine_signal\<close> on the same coroutine, one after the other.\<close>

fun signal_n :: "nat \<Rightarrow> ulong \<Rightarrow> state \<Rightarrow> unit res" where
  "signal_n 0 p s = ok s"
| "signal_n (Suc n) p s = bind (coroutine_signal p s) (\<lambda>_ s. signal_n n p s)"

text \<open>How often a list of events adds the coroutine \<open>p\<close> to a ready list.\<close>

definition enqueues :: "ulong \<Rightarrow> event list \<Rightarrow> nat" where
  "enqueues p evs = length (filter (\<lambda>e. e = EvListAddTail p) evs)"

text \<open>
  Constants to run the functions on: a stack of one page and, to see what the check at
  creation depends on, a stack of two pages checked against one. The magic numbers are
  arbitrary.
\<close>

definition example_cfg :: config where
  "example_cfg = \<lparr>COROUTINE_MAGIC = 0xCBDACBDA, COROUTINE_STACK_BOTTOM_MAGIC = 0xCBDACBDB,
     COROUTINE_STACK_TOP_MAGIC = 0xCBDACBDC, COROUTINE_STACK_SHIFT = 12,
     COROUTINE_STACK_SIZE = 4096, COROUTINE_PAGE_SIZE = 4096\<rparr>"

definition example_cfg2 :: config where
  "example_cfg2 = example_cfg\<lparr>COROUTINE_STACK_SHIFT := 13, COROUTINE_STACK_SIZE := 8192\<rparr>"

definition example_thread :: coroutine_thread where
  "example_thread = \<lparr>co_list = [], co_list_lock = False, thread_signaled = 0, stopping = False,
     task = 0, cpu = 0\<rparr>"

definition example_srv :: tlb_server where
  "example_srv = \<lparr>srv_host = [], srv_port = 0, listen_sock = 0, con_thread = 100,
     listen_thread = 0, srv_stopping = False, listen_thread_stopping = False\<rparr>"

definition example_state :: state where
  "example_state = \<lparr>cos = Map.empty, threads = (\<lambda>_. example_thread), mem = (\<lambda>_. 0),
     cons = Map.empty, srvs = (\<lambda>_. example_srv), trace = []\<rparr>"

text \<open>The coroutine at 0x5000 with its stack at 0x10000, as \<open>coroutine_create\<close> leaves it.\<close>

definition example_co :: coroutine where
  "example_co = \<lparr>magic = 0xCBDACBDA, thread = 100, stack = 0x10000,
     ctx = \<lparr>rip = RipUnset, rsp = 0\<rparr>, co_fun = 0, arg = 0, ret = 0, running = False,
     ref_count = 1, signaled = 0, co_list_entry = False\<rparr>"

definition example_created :: state where
  "example_created = example_state\<lparr>cos := [0x5000 \<mapsto> example_co],
     mem := (\<lambda>a. if a = 0x10000 then 0xCBDACBDB else if a = 0x10FF8 then 0xCBDACBDC
                  else if a = 0x10FF0 then 0x5000 else 0)\<rparr>"

text \<open>
  A coroutine that is in the ready list and has one reference left: the state after
  \<open>coroutine_signal\<close> and \<open>coroutine_deref\<close> on the coroutine of \<open>example_created\<close>,
  without its events.
\<close>

definition example_linked :: state where
  "example_linked = example_created\<lparr>
     cos := [0x5000 \<mapsto> example_co\<lparr>co_list_entry := True, signaled := 1\<rparr>],
     threads := (\<lambda>_. example_thread)
       (100 := example_thread\<lparr>co_list := [0x5000], thread_signaled := 1\<rparr>)\<rparr>"

text \<open>\<open>n\<close> calls of \<open>coroutine_yield(self)\<close>, one after the other.\<close>

fun yield_n :: "nat \<Rightarrow> (ulong \<Rightarrow> state \<Rightarrow> unit res) \<Rightarrow> ulong \<Rightarrow> state \<Rightarrow> unit res" where
  "yield_n 0 yield self s = ok s"
| "yield_n (Suc n) yield self s = bind (yield self s) (\<lambda>_ s. yield_n n yield self s)"

text \<open>The coroutine of \<open>example_created\<close> after \<open>coroutine_start\<close>, without the events.\<close>

definition example_started :: state where
  "example_started = example_created\<lparr>
     cos := [0x5000 \<mapsto> example_co\<lparr>co_fun := 7, arg := 9,
               ctx := \<lparr>rip = RipTrampoline, rsp = 0x10FF0\<rparr>, running := True,
               ref_count := 2, signaled := 1, co_list_entry := True\<rparr>],
     threads := (\<lambda>_. example_thread)
       (100 := example_thread\<lparr>co_list := [0x5000], thread_signaled := 1\<rparr>)\<rparr>"

text \<open>
  An outside for \<open>tlb_server_start\<close>: a host buffer of 16 bytes, a listen that succeeds,
  and two threads that are created.
\<close>

definition example_env :: start_env where
  "example_env = \<lparr>host_size = 16, listen_result = (\<lambda>i. (0, 7)), worker_task = 0x7000,
     listener_task = 0x8000\<rparr>"

text \<open>An outside for one iteration of the listener: the accept fails with \<open>-EINTR\<close>.\<close>

definition example_accept :: accept_env where
  "example_accept = \<lparr>should_stop = False, alloc_con = 0x6000, alloc_co = 0x5000,
     alloc_stack = 0x10000, accept_r = - 4, accept_sock = 0\<rparr>"

section \<open>Invariants of a run\<close>

text \<open>
  The events of the bookkeeping: everything but the entry into a coroutine, the call of a
  user function, the two stores of the trampoline and a yield.
\<close>

definition admin :: "event \<Rightarrow> bool" where
  "admin e = (case e of EvEnter _ \<Rightarrow> False | EvInvoke _ _ _ \<Rightarrow> False | EvStoreRet _ _ \<Rightarrow> False
     | EvClearRunning _ \<Rightarrow> False | EvYield _ \<Rightarrow> False | _ \<Rightarrow> True)"

text \<open>
  Two values of a coroutine object that differ at most in the counters and the list
  link, and in \<open>running\<close> only by having been cleared.
\<close>

definition ctl_eq :: "coroutine \<Rightarrow> coroutine \<Rightarrow> bool" where
  "ctl_eq c c' = (magic c' = magic c \<and> thread c' = thread c \<and> stack c' = stack c \<and> ctx c' = ctx c
     \<and> co_fun c' = co_fun c \<and> arg c' = arg c \<and> ret c' = ret c \<and> (running c' \<longrightarrow> running c))"

text \<open>
  A step of bookkeeping from \<open>s\<close> to \<open>s'\<close>: only bookkeeping events, the stack memory
  untouched, no object allocated, and every object that is left changed as \<open>ctl_eq\<close> allows.
\<close>

definition quiet :: "state \<Rightarrow> state \<Rightarrow> bool" where
  "quiet s s' = ((\<exists>evs. trace s' = trace s @ evs \<and> list_all admin evs) \<and> mem s' = mem s
     \<and> (\<forall>x c'. cos s' x = Some c' \<longrightarrow> (\<exists>c. cos s x = Some c \<and> ctl_eq c c')))"







text \<open>A result satisfies \<open>P\<close> when it is a value and \<open>Q\<close> when it is an error.\<close>

definition good_res :: "(state \<Rightarrow> bool) \<Rightarrow> (state \<Rightarrow> bool) \<Rightarrow> 'a res \<Rightarrow> bool" where
  "good_res P Q r = (case r of Inl (e, s) \<Rightarrow> Q s | Inr (a, s) \<Rightarrow> P s)"





text \<open>
  The coroutine \<open>p\<close> is not running (or is gone), and no event after the first \<open>n0\<close> is
  an entry into it.
\<close>

definition never_entered :: "ulong \<Rightarrow> nat \<Rightarrow> state \<Rightarrow> bool" where
  "never_entered p n0 s = ((\<forall>c. cos s p = Some c \<longrightarrow> \<not> running c) \<and> EvEnter p \<notin> set (drop n0 (trace s)))"





text \<open>
  The events of the life of the user function of \<open>p\<close>: its call, the store of its
  result, and the store that clears \<open>running\<close>; \<open>life p n0 s\<close> lists those after the first
  \<open>n0\<close> events, and \<open>lifecycle\<close> is the whole life of a function that returns \<open>v\<close>.
\<close>

definition ev_of :: "ulong \<Rightarrow> event \<Rightarrow> bool" where
  "ev_of p e = (case e of EvInvoke f q a \<Rightarrow> q = p | EvStoreRet q v \<Rightarrow> q = p
     | EvClearRunning q \<Rightarrow> q = p | _ \<Rightarrow> False)"

definition life :: "ulong \<Rightarrow> nat \<Rightarrow> state \<Rightarrow> event list" where
  "life p n0 s = filter (ev_of p) (drop n0 (trace s))"

definition lifecycle :: "ulong \<Rightarrow> ulong \<Rightarrow> ulong \<Rightarrow> ulong \<Rightarrow> event list" where
  "lifecycle p f a v = [EvInvoke f p a, EvStoreRet p v, EvClearRunning p]"

text \<open>The coroutine pointer that the trampoline loads when its stack pointer is \<open>sp\<close>.\<close>

definition resolve :: "config \<Rightarrow> state \<Rightarrow> ulong \<Rightarrow> ulong" where
  "resolve cfg s sp =
     mem s (push_bit (COROUTINE_STACK_SHIFT cfg) (drop_bit (COROUTINE_STACK_SHIFT cfg) sp)
            + COROUTINE_STACK_SIZE cfg - 2 * 8)"

text \<open>
  Every coroutine that is started and not yet entered finds itself through its saved
  stack pointer, and every coroutine suspended in a user function is the coroutine of
  that call.
\<close>

definition stacks_ok :: "config \<Rightarrow> state \<Rightarrow> bool" where
  "stacks_ok cfg s =
     (\<forall>x c. cos s x = Some c \<and> rip (ctx c) = RipTrampoline \<longrightarrow> resolve cfg s (rsp (ctx c)) = x)"

definition frames_ok :: "state \<Rightarrow> bool" where
  "frames_ok s = (\<forall>x c f q a pc. cos s x = Some c \<and> rip (ctx c) = RipInFun f q a pc \<longrightarrow> q = x)"


text \<open>
  The object \<open>c\<close> at \<open>x\<close> is as \<open>coroutine_create\<close> and \<open>coroutine_start\<close> leave an object:
  the magic numbers are in place, the stack is aligned to its size and its word below
  the top points to \<open>x\<close>, and a context that \<open>coroutine_start\<close> has set has the initial
  stack pointer.
\<close>

definition co_ok :: "config \<Rightarrow> state \<Rightarrow> ulong \<Rightarrow> coroutine \<Rightarrow> bool" where
  "co_ok cfg s x c =
     (magic c = COROUTINE_MAGIC cfg
      \<and> take_bit (COROUTINE_STACK_SHIFT cfg) (stack c) = 0
      \<and> mem s (stack_bottom (stack c)) = COROUTINE_STACK_BOTTOM_MAGIC cfg
      \<and> mem s (stack_top cfg (stack c)) = COROUTINE_STACK_TOP_MAGIC cfg
      \<and> mem s (stack_self cfg (stack c)) = x
      \<and> (rip (ctx c) = RipTrampoline \<longrightarrow> rsp (ctx c) = stack_self cfg (stack c)))"


text \<open>No event after the first \<open>n0\<close> is an entry into \<open>p\<close>.\<close>

definition no_enter :: "ulong \<Rightarrow> nat \<Rightarrow> state \<Rightarrow> bool" where
  "no_enter p n0 s = (EvEnter p \<notin> set (drop n0 (trace s)))"


text \<open>
  The store of \<open>v\<close> into \<open>ret\<close> of \<open>p\<close> among the events of \<open>s\<close> is the store of what the
  user function returned: the function \<open>f\<close>, called with \<open>p\<close> and \<open>a\<close> and no result of it
  stored yet, was given control in a state \<open>s0\<close> at a resume point \<open>pc\<close>; it made calls that
  led to the state \<open>s'\<close> and returned \<open>v\<close>; and the event that follows those of \<open>s'\<close> is the
  store of \<open>v\<close>.
\<close>

definition returned_at :: "config \<Rightarrow> usercode \<Rightarrow> ulong \<Rightarrow> ulong \<Rightarrow> ulong \<Rightarrow> ulong \<Rightarrow> nat \<Rightarrow> state \<Rightarrow> bool" where
  "returned_at cfg code f p a v n0 s =
     (\<exists>pc s0 acts s' evs. code f pc p a s0 = (acts, Return v)
        \<and> run_actions cfg acts s0 = Inr ((), s')
        \<and> n0 \<le> length (trace s0) \<and> life p n0 s0 = [EvInvoke f p a]
        \<and> trace s = trace s' @ EvStoreRet p v # evs)"








text \<open>A user function that signals its coroutine and yields, then returns 42.\<close>

definition example_code :: usercode where
  "example_code f pc p a s = (if pc = 0 then ([ActSignal p], Yield 1) else ([], Return 42))"

subsection \<open>The ready lists and the links of the coroutines\<close>

text \<open>
  \<open>linked_in s t x\<close>: the coroutine at \<open>x\<close> is allocated, its list entry is linked, and
  its thread is \<open>t\<close>.
\<close>

definition linked_in :: "state \<Rightarrow> ulong \<Rightarrow> ulong \<Rightarrow> bool" where
  "linked_in s t x = (\<exists>c. cos s x = Some c \<and> co_list_entry c \<and> thread c = t)"

text \<open>
  The ready lists agree with the links: no coroutine is twice in a list, and the list of
  a thread holds the coroutines of that thread whose entry is linked, and no other.
\<close>

definition ready_ok :: "state \<Rightarrow> bool" where
  "ready_ok s =
     (\<forall>t. distinct (co_list (threads s t)) \<and> set (co_list (threads s t)) = {x. linked_in s t x})"

text \<open>
  \<open>keeps X s s'\<close>: from \<open>s\<close> to \<open>s'\<close> the ready lists stay in agreement with the links,
  no coroutine appears or changes its thread, and a coroutine outside \<open>X\<close> that was in a
  ready list is still in it unless it has been freed.
\<close>

definition keeps :: "ulong set \<Rightarrow> state \<Rightarrow> state \<Rightarrow> bool" where
  "keeps X s s' =
     ((ready_ok s \<longrightarrow> ready_ok s')
      \<and> (\<forall>x c'. cos s' x = Some c' \<longrightarrow> (\<exists>c. cos s x = Some c \<and> thread c' = thread c))
      \<and> (\<forall>t x. x \<notin> X \<and> x \<in> set (co_list (threads s t)) \<and> cos s' x \<noteq> None
            \<longrightarrow> x \<in> set (co_list (threads s' t))))"

definition keeps_res :: "ulong set \<Rightarrow> state \<Rightarrow> 'a res \<Rightarrow> bool" where
  "keeps_res X s r = (case r of Inl e \<Rightarrow> True | Inr (a, s') \<Rightarrow> keeps X s s')"

section \<open>The scheduler loop of the specification\<close>

text \<open>
  The loop of the worker as the specification writes it (its section on the scheduler
  loop), over the primitives of the code. The specification: "\<open>ready_list\<close>: ordered
  sequence of coroutines pending a scheduler pass, protected by \<open>list_lock\<close>", so the two
  operations on the ready list take the lock of the thread.

  "remove co from ready_list":
\<close>

definition spec_remove_from_ready_list :: "ulong \<Rightarrow> ulong \<Rightarrow> state \<Rightarrow> unit res" where
  "spec_remove_from_ready_list t p s =
     bind (list_del_init p (spin_lock_irqsave t s)) (\<lambda>_ s. ok (spin_unlock_irqrestore t s))"

text \<open>"move co to tail of ready_list":\<close>

definition spec_move_to_tail :: "ulong \<Rightarrow> ulong \<Rightarrow> state \<Rightarrow> unit res" where
  "spec_move_to_tail t p s =
     bind (list_del_init p (spin_lock_irqsave t s)) (\<lambda>_ s.
       bind (list_add_tail p t s) (\<lambda>_ s. ok (spin_unlock_irqrestore t s)))"

text \<open>
  "if atomic_dec_and_test(co.signaled): remove co from ready_list; deref co; else: move
  co to tail of ready_list".
\<close>

definition spec_consume :: "config \<Rightarrow> ulong \<Rightarrow> ulong \<Rightarrow> state \<Rightarrow> unit res" where
  "spec_consume cfg t p s =
     bind (dec_and_test_signaled p s) (\<lambda>z s.
       if z then bind (spec_remove_from_ready_list t p s) (\<lambda>_ s. coroutine_deref cfg p s)
       else spec_move_to_tail t p s)"

text \<open>
  "while co != null: if co.running: enter(co); nxt := next_ready(co); ...; co := nxt",
  with the fuel of \<open>co_loop\<close>.
\<close>

fun spec_drain_pass :: "nat \<Rightarrow> config \<Rightarrow> usercode \<Rightarrow> ulong \<Rightarrow> ulong \<Rightarrow> state \<Rightarrow> unit res" where
  "spec_drain_pass 0 cfg code t p s = (if p = 0 then ok s else Inl (OutOfFuel, s))"
| "spec_drain_pass (Suc n) cfg code t p s =
     (if p = 0 then ok s
      else
        bind (get_co p s) (\<lambda>c s.
          bind (if running c then coroutine_enter cfg code p s else ok s) (\<lambda>_ s.
            bind (coroutine_thread_next_coroutine cfg t p s) (\<lambda>nxt s.
              bind (spec_consume cfg t p s) (\<lambda>_ s.
                spec_drain_pass n cfg code t nxt s)))))"

text \<open>
  "drain: co := next_ready(null); while ...; if atomic_dec_and_test(thread.signaled):
  break inner loop".
\<close>

fun spec_drain :: "nat \<Rightarrow> config \<Rightarrow> usercode \<Rightarrow> ulong \<Rightarrow> state \<Rightarrow> unit res" where
  "spec_drain 0 cfg code t s = Inl (OutOfFuel, s)"
| "spec_drain (Suc n) cfg code t s =
     bind (coroutine_thread_next_coroutine cfg t 0 s) (\<lambda>p s.
       bind (spec_drain_pass (Suc n) cfg code t p s) (\<lambda>_ s.
         bind (dec_and_test_thread_signaled t s) (\<lambda>z s.
           if z then ok s else spec_drain n cfg code t s)))"

text \<open>
  "loop: park on waitq until stopping OR thread.signaled > 0; if stopping: exit; drain;
  goto loop". The counter is an \<open>atomic_t\<close>, a signed integer of 32 bits.
\<close>

fun spec_loop :: "nat \<Rightarrow> config \<Rightarrow> usercode \<Rightarrow> ulong \<Rightarrow> state \<Rightarrow> worker res" where
  "spec_loop 0 cfg code t s = Inl (OutOfFuel, s)"
| "spec_loop (Suc n) cfg code t s =
     (let th = threads s t
      in if \<not> (stopping th \<or> 0 < sint (thread_signaled th)) then Inr (Parked, s)
         else if stopping th then Inr (Exited 0, s)
         else bind (spec_drain (Suc n) cfg code t s) (\<lambda>_ s. spec_loop n cfg code t s))"

section \<open>Properties\<close>

lemmas prim_defs = bind_def ok_def get_co_def put_co_def put_thread_def emit_def
  spin_lock_irqsave_def spin_unlock_irqrestore_def list_del_init_def list_add_tail_def
  kfree_def kfree_co_def

lemma word_sub8_eq: "(p::ulong) + sz - 8 = p \<longleftrightarrow> sz = 8"
proof
  assume "p + sz - 8 = p"
  then have "(p + sz - 8) - p = 0" by simp
  then show "sz = 8" by (simp add: algebra_simps)
qed simp

lemma word_sub16_eq: "(p::ulong) + sz - 2 * 8 = p \<longleftrightarrow> sz = 16"
proof
  assume "p + sz - 2 * 8 = p"
  then have "(p + sz - 2 * 8) - p = 0" by simp
  then show "sz = 16" by (simp add: algebra_simps)
qed simp

lemma word_sub16_neq_sub8: "(p::ulong) + sz - 2 * 8 \<noteq> p + sz - 8"
proof
  assume "p + sz - 2 * 8 = p + sz - 8"
  then have "(p + sz - 2 * 8) - (p + sz - 8) = 0" by simp
  then have "(- 8 :: ulong) = 0" by (simp add: algebra_simps)
  then show False by simp
qed

subsection \<open>Creation\<close>

lemma example_created_eq:
  "coroutine_create example_cfg 100 0x5000 0x10000 example_state = Inr (0x5000, example_created)"
  by (simp add: coroutine_create_def example_cfg_def example_state_def example_created_def
      example_co_def put_co_def stack_bottom_def stack_top_def stack_self_def fun_eq_iff)

text \<open>
  C7. \<open>coroutine_create\<close> returns null when an allocation fails: nothing has changed when
  the object was not allocated, and the object is freed again when the stack was not
  allocated. Otherwise it returns the object, whose stack holds the bottom magic in its
  first word, the top magic in its last word and the address of the object in the word
  below, and whose reference count is 1, signal counter 0 and list link empty. The only
  other outcome is the \<open>BUG_ON\<close> of line 22, for a stack that is not aligned to a page.
  The stack has room for the three words (its size is neither 8 nor 16).
\<close>

theorem coroutine_create_result:
  assumes "COROUTINE_STACK_SIZE cfg \<noteq> 8" and "COROUTINE_STACK_SIZE cfg \<noteq> 16"
  shows "case coroutine_create cfg thr pco pstack s of
      Inl (e, s') \<Rightarrow> e = BUG 22 \<and> pco \<noteq> 0 \<and> pstack \<noteq> 0
                      \<and> pstack AND (COROUTINE_PAGE_SIZE cfg - 1) \<noteq> 0
    | Inr (r, s') \<Rightarrow>
        if r = 0
        then (pco = 0 \<and> s' = s)
           \<or> (pco \<noteq> 0 \<and> pstack = 0 \<and> cos s' pco = None \<and> trace s' = trace s @ [EvKfree pco])
        else r = pco \<and> pstack \<noteq> 0 \<and>
          (\<exists>c. cos s' r = Some c \<and> stack c = pstack
             \<and> mem s' (stack c) = COROUTINE_STACK_BOTTOM_MAGIC cfg
             \<and> mem s' (stack c + COROUTINE_STACK_SIZE cfg - 8) = COROUTINE_STACK_TOP_MAGIC cfg
             \<and> mem s' (stack c + COROUTINE_STACK_SIZE cfg - 2 * 8) = r
             \<and> ref_count c = 1 \<and> signaled c = 0 \<and> \<not> co_list_entry c)"
  using assms word_sub8_eq[of pstack "COROUTINE_STACK_SIZE cfg"]
    word_sub16_eq[of pstack "COROUTINE_STACK_SIZE cfg"]
    word_sub16_neq_sub8[of pstack "COROUTINE_STACK_SIZE cfg"]
  by (auto simp: coroutine_create_def Let_def put_co_def kfree_def kfree_co_def emit_def
      stack_bottom_def stack_top_def stack_self_def)

theorem coroutine_create_result_witness:
  "COROUTINE_STACK_SIZE example_cfg \<noteq> 8 \<and> COROUTINE_STACK_SIZE example_cfg \<noteq> 16
   \<and> coroutine_create example_cfg 100 0x5000 0x10000 example_state = Inr (0x5000, example_created)
   \<and> cos example_created 0x5000 = Some example_co
   \<and> mem example_created (stack example_co) = COROUTINE_STACK_BOTTOM_MAGIC example_cfg
   \<and> mem example_created (stack example_co + COROUTINE_STACK_SIZE example_cfg - 8)
       = COROUTINE_STACK_TOP_MAGIC example_cfg
   \<and> mem example_created (stack example_co + COROUTINE_STACK_SIZE example_cfg - 2 * 8) = 0x5000
   \<and> ref_count example_co = 1 \<and> signaled example_co = 0 \<and> \<not> co_list_entry example_co"
  using coroutine_create_result[where cfg = example_cfg and thr = 100 and pco = "0x5000"
      and pstack = "0x10000" and s = example_state]
  by (simp add: example_created_eq) (simp add: example_cfg_def example_created_def example_co_def)

subsection \<open>Signals\<close>

lemma coroutine_signal_step:
  assumes "cos s p = Some c"
  shows "\<exists>s'. coroutine_signal p s = Inr ((), s')
     \<and> cos s' p = Some (c\<lparr>signaled := signaled c + 1,
                          ref_count := ref_count c + (if co_list_entry c then 0 else 1),
                          co_list_entry := True\<rparr>)
     \<and> co_list (threads s' (thread c))
         = co_list (threads s (thread c)) @ (if co_list_entry c then [] else [p])
     \<and> thread_signaled (threads s' (thread c)) = thread_signaled (threads s (thread c)) + 1
     \<and> trace s' = trace s @ [EvLock (thread c)]
                     @ (if co_list_entry c then [] else [EvListAddTail p])
                     @ [EvUnlock (thread c), EvWake (thread c)]"
  using assms
  by (cases "co_list_entry c")
    (simp_all add: coroutine_signal_def coroutine_ref_def prim_defs Let_def)

lemma signal_n_Suc:
  assumes "cos s p = Some c"
    and "co_list_entry c \<longleftrightarrow> p \<in> set (co_list (threads s (thread c)))"
    and "count_list (co_list (threads s (thread c))) p \<le> 1"
  shows "\<exists>s' evs. signal_n (Suc n) p s = Inr ((), s')
     \<and> cos s' p = Some (c\<lparr>signaled := signaled c + of_nat (Suc n),
                          ref_count := ref_count c + (if co_list_entry c then 0 else 1),
                          co_list_entry := True\<rparr>)
     \<and> co_list (threads s' (thread c))
         = co_list (threads s (thread c)) @ (if co_list_entry c then [] else [p])
     \<and> count_list (co_list (threads s' (thread c))) p = 1
     \<and> thread_signaled (threads s' (thread c))
         = thread_signaled (threads s (thread c)) + of_nat (Suc n)
     \<and> trace s' = trace s @ evs \<and> enqueues p evs = (if co_list_entry c then 0 else 1)"
  using assms
proof (induction n arbitrary: s c)
  case 0
  let ?evs = "[EvLock (thread c)] @ (if co_list_entry c then [] else [EvListAddTail p])
                @ [EvUnlock (thread c), EvWake (thread c)]"
  from coroutine_signal_step[OF "0.prems"(1)] obtain s' where
    st: "coroutine_signal p s = Inr ((), s')"
      "cos s' p = Some (c\<lparr>signaled := signaled c + 1,
                          ref_count := ref_count c + (if co_list_entry c then 0 else 1),
                          co_list_entry := True\<rparr>)"
      "co_list (threads s' (thread c))
         = co_list (threads s (thread c)) @ (if co_list_entry c then [] else [p])"
      "thread_signaled (threads s' (thread c)) = thread_signaled (threads s (thread c)) + 1"
      "trace s' = trace s @ ?evs"
    by blast
  have cnt: "count_list (co_list (threads s' (thread c))) p = 1"
    using "0.prems"(2,3) st(3) by (auto simp: count_list_0_iff le_Suc_eq)
  show ?case
    apply (rule exI[of _ s'])
    apply (rule exI[of _ ?evs])
    using st cnt by (simp add: bind_def ok_def enqueues_def)
next
  case (Suc n)
  let ?evs = "[EvLock (thread c)] @ (if co_list_entry c then [] else [EvListAddTail p])
                @ [EvUnlock (thread c), EvWake (thread c)]"
  let ?c1 = "c\<lparr>signaled := signaled c + 1,
               ref_count := ref_count c + (if co_list_entry c then 0 else 1),
               co_list_entry := True\<rparr>"
  from coroutine_signal_step[OF Suc.prems(1)] obtain s1 where
    st: "coroutine_signal p s = Inr ((), s1)"
      "cos s1 p = Some ?c1"
      "co_list (threads s1 (thread c))
         = co_list (threads s (thread c)) @ (if co_list_entry c then [] else [p])"
      "thread_signaled (threads s1 (thread c)) = thread_signaled (threads s (thread c)) + 1"
      "trace s1 = trace s @ ?evs"
    by blast
  have cnt: "count_list (co_list (threads s1 (thread c))) p = 1"
    using Suc.prems(2,3) st(3) by (auto simp: count_list_0_iff le_Suc_eq)
  have mem: "p \<in> set (co_list (threads s1 (thread c)))"
    using cnt by (metis count_list_0_iff zero_neq_one)
  have "\<exists>s' evs. signal_n (Suc n) p s1 = Inr ((), s')
     \<and> cos s' p = Some (?c1\<lparr>signaled := signaled ?c1 + of_nat (Suc n),
                          ref_count := ref_count ?c1 + (if co_list_entry ?c1 then 0 else 1),
                          co_list_entry := True\<rparr>)
     \<and> co_list (threads s' (thread ?c1))
         = co_list (threads s1 (thread ?c1)) @ (if co_list_entry ?c1 then [] else [p])
     \<and> count_list (co_list (threads s' (thread ?c1))) p = 1
     \<and> thread_signaled (threads s' (thread ?c1))
         = thread_signaled (threads s1 (thread ?c1)) + of_nat (Suc n)
     \<and> trace s' = trace s1 @ evs \<and> enqueues p evs = (if co_list_entry ?c1 then 0 else 1)"
    by (rule Suc.IH) (use st(2) mem cnt in simp_all)
  then obtain s' evs where
    r: "signal_n (Suc n) p s1 = Inr ((), s')"
      "cos s' p = Some (?c1\<lparr>signaled := signaled ?c1 + of_nat (Suc n), co_list_entry := True\<rparr>)"
      "co_list (threads s' (thread c)) = co_list (threads s1 (thread c))"
      "count_list (co_list (threads s' (thread c))) p = 1"
      "thread_signaled (threads s' (thread c))
         = thread_signaled (threads s1 (thread c)) + of_nat (Suc n)"
      "trace s' = trace s1 @ evs" "enqueues p evs = 0"
    by auto
  show ?case
    apply (rule exI[of _ s'])
    apply (rule exI[of _ "?evs @ evs"])
    using st r by (simp add: bind_def enqueues_def add.assoc)
qed

text \<open>
  C3. \<open>N \<ge> 1\<close> calls of \<open>coroutine_signal\<close> in a row, on a coroutine whose link says
  whether it is in the ready list of its thread (where it is at most once): all of them
  succeed; the coroutine is added to the list once if it was not in it and not at all if
  it was, and its reference count grows by the same number; afterwards it is in the list
  exactly once. Its signal counter and the counter of the thread have grown by \<open>N\<close>
  (modulo \<open>2^32\<close>; by exactly \<open>N\<close> when the counter does not overflow).
\<close>

theorem coroutine_signal_idempotent:
  assumes "cos s p = Some c"
    and "co_list_entry c \<longleftrightarrow> p \<in> set (co_list (threads s (thread c)))"
    and "count_list (co_list (threads s (thread c))) p \<le> 1"
    and "0 < N"
  shows "\<exists>s' evs c'. signal_n N p s = Inr ((), s') \<and> trace s' = trace s @ evs
     \<and> enqueues p evs = (if co_list_entry c then 0 else 1)
     \<and> cos s' p = Some c'
     \<and> c' = c\<lparr>signaled := signaled c + of_nat N,
              ref_count := ref_count c + (if co_list_entry c then 0 else 1),
              co_list_entry := True\<rparr>
     \<and> (unat (signaled c) + N < 2 ^ 32 \<longrightarrow> unat (signaled c') = unat (signaled c) + N)
     \<and> co_list (threads s' (thread c))
         = co_list (threads s (thread c)) @ (if co_list_entry c then [] else [p])
     \<and> count_list (co_list (threads s' (thread c))) p = 1
     \<and> thread_signaled (threads s' (thread c)) = thread_signaled (threads s (thread c)) + of_nat N"
proof -
  from assms(4) obtain n where N: "N = Suc n" by (cases N) auto
  have ov: "unat (signaled c) + N < 2 ^ 32 \<Longrightarrow> unat (signaled c + of_nat N) = unat (signaled c) + N"
    by (simp add: unat_word_ariths unat_of_nat)
  from signal_n_Suc[OF assms(1-3), of n] obtain s' evs where
    "signal_n (Suc n) p s = Inr ((), s')"
    "cos s' p = Some (c\<lparr>signaled := signaled c + of_nat (Suc n),
                          ref_count := ref_count c + (if co_list_entry c then 0 else 1),
                          co_list_entry := True\<rparr>)"
    "co_list (threads s' (thread c))
         = co_list (threads s (thread c)) @ (if co_list_entry c then [] else [p])"
    "count_list (co_list (threads s' (thread c))) p = 1"
    "thread_signaled (threads s' (thread c))
         = thread_signaled (threads s (thread c)) + of_nat (Suc n)"
    "trace s' = trace s @ evs" "enqueues p evs = (if co_list_entry c then 0 else 1)"
    by blast
  then show ?thesis
    unfolding N [symmetric] using ov by auto
qed

theorem coroutine_signal_idempotent_witness:
  "cos example_created 0x5000 = Some example_co
   \<and> (co_list_entry example_co
        \<longleftrightarrow> 0x5000 \<in> set (co_list (threads example_created (thread example_co))))
   \<and> count_list (co_list (threads example_created (thread example_co))) 0x5000 \<le> 1
   \<and> (0::nat) < 3
   \<and> (\<exists>s'. signal_n 3 0x5000 example_created = Inr ((), s')
        \<and> cos s' 0x5000 = Some (example_co\<lparr>signaled := 3, ref_count := 2, co_list_entry := True\<rparr>)
        \<and> co_list (threads s' 100) = [0x5000]
        \<and> thread_signaled (threads s' 100) = 3)"
  using coroutine_signal_idempotent[where s = example_created and p = "0x5000"
      and c = example_co and N = 3]
  by (auto simp: example_created_def example_state_def example_co_def example_thread_def)

subsection \<open>Destruction\<close>

lemma example_linked_reached:
  "bind (coroutine_signal 0x5000 example_created) (\<lambda>_ s. coroutine_deref example_cfg 0x5000 s)
     = Inr ((), example_linked\<lparr>trace :=
         [EvLock 100, EvListAddTail 0x5000, EvUnlock 100, EvWake 100]\<rparr>)"
  by (simp add: coroutine_signal_def coroutine_deref_def coroutine_ref_def prim_defs Let_def
      example_linked_def example_created_def example_state_def example_co_def
      example_thread_def fun_eq_iff)

text \<open>
  C5, as the code has it. The \<open>coroutine_deref\<close> that takes the reference count from 1
  to 0 destroys the coroutine: it asserts the magic of the coroutine (line 42), the
  bottom and the top magic of the stack (lines 43 and 44) and that the reference count is
  0 (line 45, which holds here); then it takes \<open>co_list_lock\<close>, removes the coroutine from
  the ready list, releases the lock, frees the stack and then the object. The link is
  not asserted to be empty: the result does not depend on it.
\<close>

theorem coroutine_deref_final:
  assumes "cos s p = Some c" and "ref_count c = 1"
  shows "case coroutine_deref cfg p s of
      Inl (e, s') \<Rightarrow>
        (e = BUG 42 \<and> magic c \<noteq> COROUTINE_MAGIC cfg)
      \<or> (e = BUG 43 \<and> mem s (stack c) \<noteq> COROUTINE_STACK_BOTTOM_MAGIC cfg)
      \<or> (e = BUG 44
          \<and> mem s (stack c + COROUTINE_STACK_SIZE cfg - 8) \<noteq> COROUTINE_STACK_TOP_MAGIC cfg)
    | Inr (u, s') \<Rightarrow>
        magic c = COROUTINE_MAGIC cfg
      \<and> mem s (stack c) = COROUTINE_STACK_BOTTOM_MAGIC cfg
      \<and> mem s (stack c + COROUTINE_STACK_SIZE cfg - 8) = COROUTINE_STACK_TOP_MAGIC cfg
      \<and> trace s' = trace s @ [EvLock (thread c), EvListDel p, EvUnlock (thread c),
                                EvKfree (stack c), EvKfree p]
      \<and> cos s' p = None
      \<and> co_list (threads s' (thread c)) = removeAll p (co_list (threads s (thread c)))
      \<and> \<not> co_list_lock (threads s' (thread c))"
  using assms
  by (simp add: coroutine_deref_def coroutine_delete_def prim_defs Let_def
      stack_bottom_def stack_top_def)

theorem coroutine_deref_final_witness:
  "cos example_linked 0x5000 = Some (example_co\<lparr>co_list_entry := True, signaled := 1\<rparr>)
   \<and> ref_count (example_co\<lparr>co_list_entry := True, signaled := 1\<rparr>) = 1
   \<and> \<not> isl (coroutine_deref example_cfg 0x5000 example_linked)
   \<and> trace (res_state (coroutine_deref example_cfg 0x5000 example_linked))
       = [EvLock 100, EvListDel 0x5000, EvUnlock 100, EvKfree 0x10000, EvKfree 0x5000]"
  using coroutine_deref_final[where s = example_linked and p = "0x5000" and cfg = example_cfg
      and c = "example_co\<lparr>co_list_entry := True, signaled := 1\<rparr>"]
  by (auto simp: example_linked_def example_created_def example_state_def example_co_def
      example_cfg_def example_thread_def res_state_def split: sum.splits)

text \<open>
  The claim C5 as the spec states it ("asserts that the list link is empty") fails: the
  last \<open>coroutine_deref\<close> of a coroutine whose link is not empty trips no assertion and
  destroys the coroutine.
\<close>

theorem coroutine_deref_linked_counterexample:
  "co_list_entry (the (cos example_linked 0x5000))
   \<and> ref_count (the (cos example_linked 0x5000)) = 1
   \<and> \<not> isl (coroutine_deref example_cfg 0x5000 example_linked)
   \<and> cos (res_state (coroutine_deref example_cfg 0x5000 example_linked)) 0x5000 = None"
  by (simp add: coroutine_deref_def coroutine_delete_def prim_defs Let_def stack_bottom_def
      stack_top_def res_state_def example_linked_def example_created_def example_state_def
      example_co_def example_thread_def example_cfg_def)

subsection \<open>Alignment of the stack\<close>






text \<open>
  The hypothesis on the size of the check is needed. Were the stack two pages and the
  check made against one page, a stack at 0x1000 would pass the check of line 22 without
  being aligned to its size, and its initial stack pointer would mask to 0x2000.
\<close>

lemma page_check_needs_page_size:
  "\<not> isl (coroutine_create example_cfg2 100 0x5000 0x1000 example_state)
   \<and> fst (projr (coroutine_create example_cfg2 100 0x5000 0x1000 example_state)) = 0x5000
   \<and> COROUTINE_STACK_SIZE example_cfg2 = 2 ^ COROUTINE_STACK_SHIFT example_cfg2
   \<and> 0x1000 AND (COROUTINE_STACK_SIZE example_cfg2 - 1) \<noteq> 0
   \<and> stack_self example_cfg2 0x1000 - 0x1000 < COROUTINE_STACK_SIZE example_cfg2
   \<and> push_bit (COROUTINE_STACK_SHIFT example_cfg2)
        (drop_bit (COROUTINE_STACK_SHIFT example_cfg2) (stack_self example_cfg2 0x1000)) \<noteq> 0x1000"
  by (simp add: coroutine_create_def example_cfg2_def example_cfg_def Let_def stack_self_def)

subsection \<open>Waiting\<close>

lemma coroutine_wait_yields:
  assumes "\<forall>i<k. \<exists>si ci. yield_n i yield self s = Inr ((), si) \<and> cos si p = Some ci \<and> running ci"
    and "yield_n k yield self s = Inr ((), sk)" and "cos sk p = Some c" and "\<not> running c"
  shows "coroutine_wait (Suc (k + m)) yield self p s = Inr (ret c, sk)
     \<and> (\<forall>n\<le>k. \<exists>sn. yield_n n yield self s = Inr ((), sn)
            \<and> coroutine_wait n yield self p s = Inl (OutOfFuel, sn))"
  using assms
proof (induction k arbitrary: s)
  case 0
  then show ?case by (simp add: ok_def bind_def get_co_def)
next
  case (Suc k)
  from Suc.prems(1)
  have "\<exists>si ci. yield_n 0 yield self s = Inr ((), si) \<and> cos si p = Some ci \<and> running ci"
    by blast
  then obtain c0 where c0: "cos s p = Some c0" "running c0" by (auto simp: ok_def)
  from Suc.prems(2) obtain s1 where s1: "yield self s = Inr ((), s1)"
    by (cases "yield self s") (auto simp: bind_def)
  have run1: "\<forall>i<k. \<exists>si ci. yield_n i yield self s1 = Inr ((), si) \<and> cos si p = Some ci
                \<and> running ci"
  proof (intro allI impI)
    fix i assume "i < k"
    then have "Suc i < Suc k" by simp
    with Suc.prems(1)
    have "\<exists>si ci. yield_n (Suc i) yield self s = Inr ((), si) \<and> cos si p = Some ci \<and> running ci"
      by blast
    then show "\<exists>si ci. yield_n i yield self s1 = Inr ((), si) \<and> cos si p = Some ci \<and> running ci"
      using s1 by (simp add: bind_def)
  qed
  have fin1: "yield_n k yield self s1 = Inr ((), sk)"
    using Suc.prems(2) s1 by (simp add: bind_def)
  from Suc.IH[OF run1 fin1 Suc.prems(3,4)]
  have ih: "coroutine_wait (Suc (k + m)) yield self p s1 = Inr (ret c, sk)"
    and ih2: "\<forall>n\<le>k. \<exists>sn. yield_n n yield self s1 = Inr ((), sn)
            \<and> coroutine_wait n yield self p s1 = Inl (OutOfFuel, sn)"
    by blast+
  have a: "coroutine_wait (Suc (Suc k + m)) yield self p s = Inr (ret c, sk)"
    using c0 s1 ih by (simp add: bind_def get_co_def)
  have b: "\<exists>sn. yield_n n yield self s = Inr ((), sn)
            \<and> coroutine_wait n yield self p s = Inl (OutOfFuel, sn)" if "n \<le> Suc k" for n
  proof (cases n)
    case 0
    then show ?thesis by (simp add: ok_def)
  next
    case (Suc n')
    with that have "n' \<le> k" by simp
    with ih2 obtain sn where "yield_n n' yield self s1 = Inr ((), sn)"
      "coroutine_wait n' yield self p s1 = Inl (OutOfFuel, sn)" by blast
    then show ?thesis using Suc c0 s1 by (simp add: bind_def get_co_def)
  qed
  show ?case using a b by blast
qed

text \<open>
  C8. Let the other coroutine be running in the state of the call and after each of the
  first \<open>k - 1\<close> yields of \<open>self\<close>, and not running after the \<open>k\<close>-th. Then
  \<open>coroutine_wait(self, other)\<close> yields exactly \<open>k\<close> times: with any fuel above \<open>k\<close> it
  returns \<open>other.ret\<close> in the state after the \<open>k\<close>-th yield, and with fuel \<open>n \<le> k\<close> it is
  still in the loop after \<open>n\<close> yields. For \<open>k = 0\<close> (the other coroutine has finished) it
  returns \<open>other.ret\<close> in the state of the call, whatever \<open>coroutine_yield\<close> would do.
\<close>

theorem coroutine_wait_result:
  assumes "\<forall>i<k. \<exists>si ci. yield_n i yield self s = Inr ((), si) \<and> cos si p = Some ci \<and> running ci"
    and "yield_n k yield self s = Inr ((), sk)" and "cos sk p = Some c" and "\<not> running c"
  shows "coroutine_wait (Suc (k + m)) yield self p s = Inr (ret c, sk)
     \<and> (\<forall>n\<le>k. \<exists>sn. yield_n n yield self s = Inr ((), sn)
            \<and> coroutine_wait n yield self p s = Inl (OutOfFuel, sn))
     \<and> (k = 0 \<longrightarrow> sk = s \<and> (\<forall>y. coroutine_wait (Suc m) y self p s = Inr (ret c, s)))"
proof -
  have "sk = s \<and> (\<forall>y. coroutine_wait (Suc m) y self p s = Inr (ret c, s))" if "k = 0"
    using that assms(2-4) by (auto simp: ok_def bind_def get_co_def)
  then show ?thesis using coroutine_wait_yields[OF assms] by blast
qed

theorem coroutine_wait_result_witness:
  "running (the (cos example_started 0x5000))
   \<and> \<not> isl (yield_n 1 (\<lambda>self. trampoline_finish example_cfg 0x5000 42) 0x5008 example_started)
   \<and> \<not> running (the (cos (res_state
         (yield_n 1 (\<lambda>self. trampoline_finish example_cfg 0x5000 42) 0x5008 example_started)) 0x5000))
   \<and> coroutine_wait 3 (\<lambda>self. trampoline_finish example_cfg 0x5000 42) 0x5008 0x5000
         example_started
       = Inr (42, res_state
           (yield_n 1 (\<lambda>self. trampoline_finish example_cfg 0x5000 42) 0x5008 example_started))
   \<and> isl (coroutine_wait 1 (\<lambda>self. trampoline_finish example_cfg 0x5000 42) 0x5008 0x5000
         example_started)"
proof -
  let ?y = "\<lambda>self :: ulong. trampoline_finish example_cfg 0x5000 42"
  let ?c = "example_co\<lparr>co_fun := 7, arg := 9,
               ctx := \<lparr>rip = RipFinalYield, rsp = 0x10FF0\<rparr>, running := False,
               ref_count := 2, signaled := 1, co_list_entry := True, ret := 42\<rparr>"
  obtain sk where sk: "yield_n 1 ?y 0x5008 example_started = Inr ((), sk)" "cos sk 0x5000 = Some ?c"
    by (simp add: trampoline_finish_def coroutine_yield_def prim_defs Let_def example_started_def
        example_created_def example_state_def example_co_def example_cfg_def stack_bottom_def
        stack_top_def)
  have r0: "\<forall>i<1. \<exists>si ci. yield_n i ?y 0x5008 example_started = Inr ((), si)
              \<and> cos si 0x5000 = Some ci \<and> running ci"
    by (simp add: ok_def example_started_def)
  have nr: "\<not> running ?c" by simp
  note w = coroutine_wait_result[OF r0 sk nr, of 1]
  have three: "Suc (1 + 1) = (3::nat)" by simp
  from w have a: "coroutine_wait 3 ?y 0x5008 0x5000 example_started = Inr (ret ?c, sk)"
    unfolding three by blast
  from w have "\<exists>sn. yield_n 1 ?y 0x5008 example_started = Inr ((), sn)
      \<and> coroutine_wait 1 ?y 0x5008 0x5000 example_started = Inl (OutOfFuel, sn)"
    by blast
  then have b: "isl (coroutine_wait 1 ?y 0x5008 0x5000 example_started)" by auto
  show ?thesis
    unfolding a sk using b sk(2) by (simp add: res_state_def example_co_def example_started_def)
qed

section \<open>Properties of the server\<close>

lemmas server_defs = tlb_con_create_def tlb_con_delete_def tlb_con_start_def get_con_def
  put_con_def put_srv_def kfree_con_def ksock_release_def

lemma snprintf_s_returns_strlen: "snd (snprintf_s n hst) = strlen hst"
  by (simp add: snprintf_s_def strlen_def)

text \<open>
  C9 fails on the code. \<open>snprintf\<close> returns the length of the whole string, which is
  \<open>strlen(host)\<close> also when the string does not fit, so the test of line 110 is never
  true. With a host that does not fit in the buffer, a listen that succeeds and two
  threads that are created, \<open>tlb_server_start\<close> returns 0, having stored the truncated
  host, opened the listening socket on it and started both threads.
\<close>

theorem tlb_server_start_long_host:
  assumes "0 < host_size env" and "host_size env \<le> length hst"
    and "fst (listen_result env 0) = 0"
    and "\<not> IS_ERR (worker_task env)" and "\<not> IS_ERR (listener_task env)"
  shows "\<exists>s'. tlb_server_start cfg env psrv hst prt s = Inr (0, s')
     \<and> srv_host (srvs s' psrv) = take (host_size env - 1) hst
     \<and> length (srv_host (srvs s' psrv)) < length hst
     \<and> listen_sock (srvs s' psrv) = snd (listen_result env 0)
     \<and> trace s' = trace s @ [EvSockListen (take (host_size env - 1) hst) prt,
          EvKthreadCreate (worker_task env), EvWakeUpProcess (worker_task env),
          EvKthreadCreate (listener_task env), EvWakeUpProcess (listener_task env)]"
  using assms
  by (auto simp: tlb_server_start_def snprintf_s_def strlen_def Let_def put_srv_def emit_def
      bind_def coroutine_thread_start_def put_thread_def numeral_eq_Suc EINVAL_def)

theorem tlb_server_start_long_host_witness:
  "0 < host_size example_env \<and> host_size example_env \<le> length ''0123456789abcdefXYZ''
   \<and> fst (listen_result example_env 0) = 0
   \<and> \<not> IS_ERR (worker_task example_env) \<and> \<not> IS_ERR (listener_task example_env)
   \<and> fst (projr (tlb_server_start example_cfg example_env 200 ''0123456789abcdefXYZ'' 80
         example_state)) = 0
   \<and> srv_host (srvs (res_state (tlb_server_start example_cfg example_env 200
         ''0123456789abcdefXYZ'' 80 example_state)) 200) = ''0123456789abcde''"
  using tlb_server_start_long_host[where env = example_env and hst = "''0123456789abcdefXYZ''"
     and cfg = example_cfg and psrv = 200 and prt = 80 and s = example_state]
  by (auto simp: example_env_def IS_ERR_def res_state_def)

text \<open>
  C10. In an iteration of the listener's loop that is not stopped: when the connection
  and its coroutine are created and \<open>ksock_accept\<close> returns an error, the iteration does
  nothing but the accept and the destruction of the coroutine (unlink under the lock, free
  of the stack, free of the object: no signal, no entry, no call of a user function), the
  coroutine is gone, and the loop goes on with the next iteration; when one of the three
  allocations of the connection fails, the routine returns 0 with
  \<open>listen_thread_stopping\<close> set, whatever iterations would follow.
\<close>

theorem listener_accept_error_and_create_failure:
  assumes "\<not> should_stop e" and "\<not> srv_stopping (srvs s psrv)"
    and "COROUTINE_STACK_SIZE cfg \<noteq> 8" and "COROUTINE_STACK_SIZE cfg \<noteq> 16"
  shows "(alloc_con e \<noteq> 0 \<and> alloc_co e \<noteq> 0 \<and> alloc_stack e \<noteq> 0
          \<and> alloc_stack e AND (COROUTINE_PAGE_SIZE cfg - 1) = 0 \<and> accept_r e \<noteq> 0 \<longrightarrow>
          (\<exists>s'. tlb_server_listen_thread_routine cfg fptr psrv (e # es) s
                  = tlb_server_listen_thread_routine cfg fptr psrv es s'
             \<and> cos s' (alloc_co e) = None
             \<and> trace s' = trace s @ [EvSockAccept (listen_sock (srvs s psrv)),
                   EvLock (con_thread (srvs s psrv)), EvListDel (alloc_co e),
                   EvUnlock (con_thread (srvs s psrv)), EvKfree (alloc_stack e),
                   EvKfree (alloc_co e)]
             \<and> srvs s' = srvs s))
     \<and> (alloc_con e = 0 \<or> alloc_co e = 0 \<or> alloc_stack e = 0 \<longrightarrow>
          (\<exists>s'. tlb_server_listen_thread_routine cfg fptr psrv (e # es) s = Inr (0, s')
             \<and> listen_thread_stopping (srvs s' psrv)
             \<and> (\<forall>ev \<in> set (drop (length (trace s)) (trace s')). \<exists>q. ev = EvKfree q)))"
  using assms word_sub8_eq[of "alloc_stack e" "COROUTINE_STACK_SIZE cfg"]
    word_sub16_eq[of "alloc_stack e" "COROUTINE_STACK_SIZE cfg"]
    word_sub16_neq_sub8[of "alloc_stack e" "COROUTINE_STACK_SIZE cfg"]
  by (auto simp: server_defs coroutine_create_def coroutine_deref_def coroutine_delete_def
      prim_defs Let_def stack_bottom_def stack_top_def stack_self_def)

theorem listener_accept_error_and_create_failure_witness:
  "\<not> should_stop example_accept \<and> \<not> srv_stopping (srvs example_state 200)
   \<and> COROUTINE_STACK_SIZE example_cfg \<noteq> 8 \<and> COROUTINE_STACK_SIZE example_cfg \<noteq> 16
   \<and> alloc_con example_accept \<noteq> 0 \<and> alloc_co example_accept \<noteq> 0
   \<and> alloc_stack example_accept \<noteq> 0
   \<and> alloc_stack example_accept AND (COROUTINE_PAGE_SIZE example_cfg - 1) = 0
   \<and> accept_r example_accept \<noteq> 0
   \<and> (\<exists>s'. tlb_server_listen_thread_routine example_cfg 0x9000 200 [example_accept] example_state
             = Inl (OutOfFuel, s')
          \<and> cos s' 0x5000 = None
          \<and> trace s' = [EvSockAccept 0, EvLock 100, EvListDel 0x5000, EvUnlock 100,
                         EvKfree 0x10000, EvKfree 0x5000])
   \<and> alloc_co (example_accept\<lparr>alloc_co := 0\<rparr>) = 0
   \<and> (\<exists>s'. tlb_server_listen_thread_routine example_cfg 0x9000 200
               [example_accept\<lparr>alloc_co := 0\<rparr>, example_accept] example_state = Inr (0, s')
          \<and> listen_thread_stopping (srvs s' 200))"
  using listener_accept_error_and_create_failure[where e = example_accept and s = example_state
      and psrv = 200 and cfg = example_cfg and fptr = "0x9000" and es = "[]"]
    listener_accept_error_and_create_failure[where e = "example_accept\<lparr>alloc_co := 0\<rparr>"
      and s = example_state and psrv = 200 and cfg = example_cfg and fptr = "0x9000"
      and es = "[example_accept]"]
  by (auto simp: example_accept_def example_state_def example_srv_def example_cfg_def)

section \<open>Properties of runs of the worker\<close>

lemma ctl_eq_refl [simp]: "ctl_eq c c" by (simp add: ctl_eq_def)

lemma ctl_eq_trans: "ctl_eq a b \<Longrightarrow> ctl_eq b c \<Longrightarrow> ctl_eq a c" by (auto simp: ctl_eq_def)

lemma quiet_refl [simp]: "quiet s s" by (auto simp: quiet_def)

lemma quiet_trans: "quiet s1 s2 \<Longrightarrow> quiet s2 s3 \<Longrightarrow> quiet s1 s3"
  unfolding quiet_def
  apply (elim conjE exE)
  apply (intro conjI)
    apply (rule_tac x = "evs @ evsa" in exI, simp)
   apply simp
  apply (meson ctl_eq_trans)
  done

lemma res_state_simps [simp]:
  "res_state (Inl (e, s)) = s" "res_state (Inr (a, s)) = s" "res_state (ok s) = s"
  by (simp_all add: res_state_def ok_def)

lemma quiet_bind:
  assumes "quiet s (res_state (f s))"
    and "\<And>a s1. f s = Inr (a, s1) \<Longrightarrow> quiet s1 (res_state (g a s1))"
  shows "quiet s (res_state (bind (f s) g))"
proof (cases "f s")
  case (Inl e)
  then show ?thesis using assms(1) by (cases e) (simp add: bind_def)
next
  case (Inr r)
  then obtain a s1 where r: "f s = Inr (a, s1)" by (cases r) auto
  then have "quiet s s1" using assms(1) by simp
  moreover have "quiet s1 (res_state (g a s1))" using assms(2) r by blast
  ultimately show ?thesis using r by (auto simp: bind_def intro: quiet_trans)
qed






lemma quiet_kfree: "quiet s (kfree p s)" by (auto simp: quiet_def kfree_def emit_def admin_def)

lemma quiet_kfree_co: "quiet s (kfree_co p s)" by (auto simp: quiet_def kfree_co_def kfree_def emit_def admin_def)








lemma quiet_signal: "quiet s (res_state (coroutine_signal p s))"
  by (auto simp: coroutine_signal_def coroutine_ref_def prim_defs quiet_def admin_def ctl_eq_def Let_def split: option.splits)





lemma quiet_bind_all:
  assumes "\<And>s. quiet s (res_state (f s))" and "\<And>a s. quiet s (res_state (g a s))"
  shows "quiet s (res_state (bind (f s) g))"
  by (rule quiet_bind) (rule assms)+






lemma list_empty_entry_Inr: "list_empty_entry p s = Inr (e, s1) \<Longrightarrow> s1 = s"
  by (auto simp: list_empty_entry_def prim_defs split: option.splits)

lemma quiet_pre: "quiet s (h s) \<Longrightarrow> quiet (h s) (res_state (f (h s))) \<Longrightarrow> quiet s (res_state (f (h s)))"
  by (rule quiet_trans)


lemma good_res_simps [simp]:
  "good_res P Q (Inl (e, s)) = Q s" "good_res P Q (Inr (a, s)) = P s" "good_res P Q (ok s) = P s"
  by (simp_all add: good_res_def ok_def)






















lemma cancel_never_entered:
  assumes "cos s p = Some c" and "coroutine_cancel p s = Inr ((), s1)"
  shows "never_entered p (length (trace s1)) s1"
proof -
  have "quiet (put_co p (c\<lparr>running := False\<rparr>) s) s1"
    using assms quiet_signal[of "put_co p (c\<lparr>running := False\<rparr>) s" p]
    by (simp add: coroutine_cancel_def get_co_def bind_def)
  then show ?thesis
    by (auto simp: never_entered_def quiet_def ctl_eq_def put_co_def split: if_splits)
qed





lemma co_loop_null [simp]: "co_loop n cfg code t 0 s = ok s"
  by (cases n) simp_all


















subsection \<open>The call of the user function\<close>









lemma returned_at_put_co [simp]: "returned_at cfg code f p a v n0 (put_co x c s) = returned_at cfg code f p a v n0 s"
  by (simp add: returned_at_def put_co_def)






lemma life_put_co [simp]: "life p n0 (put_co x c s) = life p n0 s"
  by (simp add: life_def put_co_def)

lemma trace_emit_len [simp]: "n0 \<le> length (trace s) \<Longrightarrow> n0 \<le> length (trace (emit e s))"
  by (simp add: emit_def)

lemma trace_put_co [simp]: "trace (put_co x c s) = trace s"
  by (simp add: put_co_def)

lemma stacks_ok_emit [simp]: "stacks_ok cfg (emit e s) = stacks_ok cfg s"
  by (simp add: stacks_ok_def resolve_def emit_def)

lemma frames_ok_emit [simp]: "frames_ok (emit e s) = frames_ok s"
  by (simp add: frames_ok_def emit_def)

lemma cos_emit [simp]: "cos (emit e s) = cos s" by (simp add: emit_def)

lemma mem_emit [simp]: "mem (emit e s) = mem s" by (simp add: emit_def)

lemma cos_put_co [simp]: "cos (put_co x c s) = (cos s)(x \<mapsto> c)" by (simp add: put_co_def)

lemma mem_put_co [simp]: "mem (put_co x c s) = mem s" by (simp add: put_co_def)

lemma resolve_emit [simp]: "resolve cfg (emit e s) = resolve cfg s"
  by (simp add: resolve_def fun_eq_iff)

lemma resolve_put_co [simp]: "resolve cfg (put_co x c s) = resolve cfg s"
  by (simp add: resolve_def fun_eq_iff)





lemma take_lifecycle_1: "[EvInvoke f p a] = take 1 (lifecycle p f a v)"
  by (simp add: lifecycle_def)

lemma take_lifecycle_2: "[EvInvoke f p a, EvStoreRet p v] = take 2 (lifecycle p f a v)"
  by (simp add: lifecycle_def numeral_2_eq_2)

























lemma co_ok_emit [simp]: "co_ok cfg (emit e s) x c = co_ok cfg s x c"
  by (simp add: co_ok_def emit_def)


lemma co_ok_put_co [simp]: "co_ok cfg (put_co y c' s) x c = co_ok cfg s x c"
  by (simp add: co_ok_def put_co_def)













lemma no_enter_emit [simp]: "e \<noteq> EvEnter p \<Longrightarrow> no_enter p n0 (emit e s) = no_enter p n0 s"
  by (auto simp: no_enter_def emit_def dest: in_set_dropD)

lemma no_enter_put_co [simp]: "no_enter p n0 (put_co x c s) = no_enter p n0 s"
  by (simp add: no_enter_def put_co_def)






















































section \<open>The worker's loop and the loop of the specification\<close>

lemma keeps_res_simps [simp]:
  "keeps_res X s (Inl e) = True" "keeps_res X s (Inr (a, s')) = keeps X s s'"
  "keeps_res X s (ok s') = keeps X s s'"
  by (simp_all add: keeps_res_def ok_def)

lemma keeps_refl [simp]: "keeps X s s" by (simp add: keeps_def)

lemma keeps_trans:
  assumes a: "keeps X s1 s2" and b: "keeps Y s2 s3"
  shows "keeps (X \<union> Y) s1 s3"
  unfolding keeps_def
proof (intro conjI allI impI)
  assume "ready_ok s1"
  then show "ready_ok s3" using a b by (simp add: keeps_def)
next
  fix x c3 assume "cos s3 x = Some c3"
  then obtain c2 where c2: "cos s2 x = Some c2" "thread c3 = thread c2"
    using b unfolding keeps_def by blast
  then obtain c1 where "cos s1 x = Some c1" "thread c2 = thread c1"
    using a unfolding keeps_def by blast
  then show "\<exists>c. cos s1 x = Some c \<and> thread c3 = thread c" using c2 by simp
next
  fix t x assume h: "x \<notin> X \<union> Y \<and> x \<in> set (co_list (threads s1 t)) \<and> cos s3 x \<noteq> None"
  then obtain c3 where "cos s3 x = Some c3" by blast
  then have "cos s2 x \<noteq> None" using b unfolding keeps_def by fastforce
  then have "x \<in> set (co_list (threads s2 t))" using a h unfolding keeps_def by blast
  then show "x \<in> set (co_list (threads s3 t))" using b h unfolding keeps_def by blast
qed

lemma keeps_mono: "keeps X s s' \<Longrightarrow> X \<subseteq> Y \<Longrightarrow> keeps Y s s'"
  unfolding keeps_def by blast

lemma keeps_bind:
  assumes "keeps_res X s r"
    and "\<And>a s1. r = Inr (a, s1) \<Longrightarrow> keeps X s s1 \<Longrightarrow> keeps_res X s1 (g a s1)"
  shows "keeps_res X s (bind r g)"
proof (cases r)
  case (Inl e)
  then show ?thesis by (simp add: bind_def)
next
  case (Inr x)
  then obtain a s1 where r: "r = Inr (a, s1)" by (cases x) auto
  then have k: "keeps X s s1" using assms(1) by simp
  show ?thesis
  proof (cases "g a s1")
    case (Inl e)
    then show ?thesis using r by (simp add: bind_def)
  next
    case (Inr y)
    then obtain b s2 where y: "g a s1 = Inr (b, s2)" by (cases y) auto
    then have "keeps X s1 s2" using assms(2)[OF r k] by simp
    then have "keeps X s s2" using keeps_trans[OF k, of X s2] by simp
    then show ?thesis using r y by (simp add: bind_def)
  qed
qed

lemma linked_in_emit [simp]: "linked_in (emit e s) = linked_in s"
  by (simp add: linked_in_def emit_def fun_eq_iff)

lemma linked_in_put_thread [simp]: "linked_in (put_thread t th s) = linked_in s"
  by (simp add: linked_in_def put_thread_def fun_eq_iff)

lemma linked_in_put_co:
  "cos s p = Some c \<Longrightarrow> thread c' = thread c \<Longrightarrow> co_list_entry c' = co_list_entry c
     \<Longrightarrow> linked_in (put_co p c' s) = linked_in s"
  by (auto simp: linked_in_def put_co_def fun_eq_iff)

lemma keeps_emit: "keeps X s (emit e s)"
  by (simp add: keeps_def ready_ok_def) (simp add: emit_def)

lemma keeps_put_thread: "co_list th = co_list (threads s t) \<Longrightarrow> keeps X s (put_thread t th s)"
  by (simp add: keeps_def ready_ok_def) (simp add: put_thread_def)

lemma keeps_put_co:
  "cos s p = Some c \<Longrightarrow> thread c' = thread c \<Longrightarrow> co_list_entry c' = co_list_entry c
     \<Longrightarrow> keeps X s (put_co p c' s)"
  by (simp add: keeps_def ready_ok_def linked_in_put_co) (simp add: put_co_def)

lemma keeps_lock: "keeps X s (spin_lock_irqsave t s)"
  unfolding spin_lock_irqsave_def
  using keeps_trans[OF keeps_put_thread keeps_emit, of _ s t X X] by simp

lemma keeps_unlock: "keeps X s (spin_unlock_irqrestore t s)"
  unfolding spin_unlock_irqrestore_def
  using keeps_trans[OF keeps_put_thread keeps_emit, of _ s t X X] by simp

lemma keeps_kfree: "keeps X s (kfree p s)"
  by (simp add: kfree_def keeps_emit)

lemma keeps_freed:
  assumes "keeps X s s'" and "\<And>x. x \<in> X \<Longrightarrow> cos s' x = None"
  shows "keeps Y s s'"
  unfolding keeps_def
proof (intro conjI allI impI)
  show "ready_ok s \<Longrightarrow> ready_ok s'" using assms(1) by (simp add: keeps_def)
  show "\<exists>c. cos s x = Some c \<and> thread c' = thread c" if "cos s' x = Some c'" for x c'
    using assms(1) that by (simp add: keeps_def)
  show "x \<in> set (co_list (threads s' t))"
    if h: "x \<notin> Y \<and> x \<in> set (co_list (threads s t)) \<and> cos s' x \<noteq> None" for t x
  proof -
    have "x \<notin> X" using assms(2)[of x] h by auto
    then show ?thesis using assms(1) h unfolding keeps_def by blast
  qed
qed

lemma keeps_res_bind:
  assumes "keeps_res X s r"
    and "\<And>a s1. r = Inr (a, s1) \<Longrightarrow> keeps_res X s1 (g a s1)"
  shows "keeps_res X s (bind r g)"
  by (rule keeps_bind[OF assms(1)]) (rule assms(2))

lemma keeps_pre: "keeps X s s1 \<Longrightarrow> keeps_res X s1 r \<Longrightarrow> keeps_res X s r"
  using keeps_trans[of X s s1 X] by (cases r) (auto simp: keeps_res_def)

lemma keeps_get_co: "keeps_res X s (get_co p s)"
  by (simp add: get_co_def split: option.splits)

lemma list_del_init_Inr:
  assumes "list_del_init p s = Inr (u, s')"
  shows "\<exists>c. cos s p = Some c
    \<and> cos s' = (cos s)(p \<mapsto> c\<lparr>co_list_entry := False\<rparr>)
    \<and> (\<forall>t. co_list (threads s' t) = (if t = thread c then removeAll p (co_list (threads s t)) else co_list (threads s t)))"
  using assms
  by (auto simp: list_del_init_def prim_defs Let_def split: option.splits)

lemma keeps_list_del_init: "keeps_res {p} s (list_del_init p s)"
proof (cases "list_del_init p s")
  case (Inl e)
  then show ?thesis by simp
next
  case (Inr r)
  then obtain u s' where r: "list_del_init p s = Inr (u, s')" by (cases r) auto
  from r obtain c where c: "cos s p = Some c"
    and cos': "cos s' = (cos s)(p \<mapsto> c\<lparr>co_list_entry := False\<rparr>)"
    and l': "\<And>t. co_list (threads s' t) = (if t = thread c then removeAll p (co_list (threads s t)) else co_list (threads s t))"
    using list_del_init_Inr[OF r] by blast
  have lnk: "linked_in s' t x = (linked_in s t x \<and> x \<noteq> p)" for t x
    using c cos' by (auto simp: linked_in_def)
  have np: "\<not> linked_in s t p" if "t \<noteq> thread c" for t
    using c that by (auto simp: linked_in_def)
  have "ready_ok s'" if ok: "ready_ok s"
    unfolding ready_ok_def
  proof (intro allI conjI)
    fix t
    have d: "distinct (co_list (threads s t))" using ok unfolding ready_ok_def by blast
    then show "distinct (co_list (threads s' t))" by (auto simp: l' distinct_removeAll)
    have "set (co_list (threads s t)) = {x. linked_in s t x}" using ok unfolding ready_ok_def by blast
    then show "set (co_list (threads s' t)) = {x. linked_in s' t x}"
      using np[of t] by (auto simp: l' lnk)
  qed
  moreover have "\<exists>c. cos s x = Some c \<and> thread c' = thread c" if "cos s' x = Some c'" for x c'
    using that c cos' by (cases "x = p") auto
  moreover have "x \<in> set (co_list (threads s' t))" if "x \<noteq> p" "x \<in> set (co_list (threads s t))" for x t
    using that by (auto simp: l')
  ultimately have "keeps {p} s s'" unfolding keeps_def by blast
  then show ?thesis using r by simp
qed

lemma list_add_tail_Inr:
  assumes "list_add_tail p t s = Inr (u, s')"
  shows "\<exists>c. cos s p = Some c
    \<and> cos s' = (cos s)(p \<mapsto> c\<lparr>co_list_entry := True\<rparr>)
    \<and> (\<forall>t'. co_list (threads s' t') = (if t' = t then co_list (threads s t) @ [p] else co_list (threads s t')))"
  using assms
  by (auto simp: list_add_tail_def prim_defs Let_def split: option.splits)

lemma keeps_list_add_tail:
  assumes "\<And>c. cos s p = Some c \<Longrightarrow> \<not> co_list_entry c \<and> thread c = t"
  shows "keeps_res X s (list_add_tail p t s)"
proof (cases "list_add_tail p t s")
  case (Inl e)
  then show ?thesis by simp
next
  case (Inr r)
  then obtain u s' where r: "list_add_tail p t s = Inr (u, s')" by (cases r) auto
  from r obtain c where c: "cos s p = Some c"
    and cos': "cos s' = (cos s)(p \<mapsto> c\<lparr>co_list_entry := True\<rparr>)"
    and l': "\<And>t'. co_list (threads s' t') = (if t' = t then co_list (threads s t) @ [p] else co_list (threads s t'))"
    using list_add_tail_Inr[OF r] by blast
  have cc: "\<not> co_list_entry c" "thread c = t" using assms[OF c] by simp_all
  have lnk: "linked_in s' t' x = (linked_in s t' x \<or> (x = p \<and> t' = t))" for t' x
    using c cos' cc by (auto simp: linked_in_def)
  have np: "\<not> linked_in s t' p" for t'
    using c cc by (auto simp: linked_in_def)
  have "ready_ok s'" if ok: "ready_ok s"
    unfolding ready_ok_def
  proof (intro allI conjI)
    fix t'
    have st: "set (co_list (threads s t')) = {x. linked_in s t' x}" using ok unfolding ready_ok_def by blast
    have d: "distinct (co_list (threads s t'))" using ok unfolding ready_ok_def by blast
    have "p \<notin> set (co_list (threads s t'))" using np[of t'] st by simp
    then show "distinct (co_list (threads s' t'))" using d by (auto simp: l')
    show "set (co_list (threads s' t')) = {x. linked_in s' t' x}"
      using st by (auto simp: l' lnk)
  qed
  moreover have "\<exists>c. cos s x = Some c \<and> thread c' = thread c" if "cos s' x = Some c'" for x c'
    using that c cos' by (cases "x = p") auto
  moreover have "x \<in> set (co_list (threads s' t'))" if "x \<in> set (co_list (threads s t'))" for x t'
    using that by (auto simp: l')
  ultimately have "keeps X s s'" unfolding keeps_def by blast
  then show ?thesis using r by simp
qed

lemma keeps_kfree_co:
  assumes "\<And>c. cos s p = Some c \<Longrightarrow> \<not> co_list_entry c"
  shows "keeps X s (kfree_co p s)"
proof -
  have lnk: "linked_in (kfree_co p s) = linked_in s"
    using assms by (auto simp: linked_in_def kfree_co_def kfree_def emit_def fun_eq_iff)
  have l: "threads (kfree_co p s) = threads s" by (simp add: kfree_co_def kfree_def emit_def)
  have c: "cos (kfree_co p s) = (cos s)(p := None)" by (simp add: kfree_co_def kfree_def emit_def)
  show ?thesis unfolding keeps_def ready_ok_def lnk l c by (auto split: if_splits)
qed

lemma keeps_trans_same: "keeps X s1 s2 \<Longrightarrow> keeps X s2 s3 \<Longrightarrow> keeps X s1 s3"
  using keeps_trans[of X s1 s2 X s3] by simp

lemma keeps_res_get_co:
  assumes "\<And>c. cos s p = Some c \<Longrightarrow> keeps_res X s (g c s)"
  shows "keeps_res X s (bind (get_co p s) g)"
  by (cases "cos s p") (simp_all add: get_co_def bind_def assms)

lemma cos_lock [simp]: "cos (spin_lock_irqsave t s) = cos s"
  by (simp add: spin_lock_irqsave_def put_thread_def emit_def)

lemma cos_unlock [simp]: "cos (spin_unlock_irqrestore t s) = cos s"
  by (simp add: spin_unlock_irqrestore_def put_thread_def emit_def)

lemma cos_kfree [simp]: "cos (kfree p s) = cos s"
  by (simp add: kfree_def emit_def)

lemma cos_put_thread [simp]: "cos (put_thread t th s) = cos s"
  by (simp add: put_thread_def)

lemma keeps_ref: "keeps_res X s (coroutine_ref p s)"
  unfolding coroutine_ref_def by (rule keeps_res_get_co) (simp add: keeps_put_co)

lemma keeps_delete: "keeps_res X s (coroutine_delete cfg p s)"
  unfolding coroutine_delete_def
proof (rule keeps_res_get_co)
  fix c assume c: "cos s p = Some c"
  let ?s1 = "spin_lock_irqsave (thread c) s"
  have tl: "keeps_res X s (bind (list_del_init p ?s1)
              (\<lambda>_ s. ok (kfree_co p (kfree (stack c) (spin_unlock_irqrestore (thread c) s)))))"
  proof (cases "list_del_init p ?s1")
    case (Inl e)
    then show ?thesis by (simp add: bind_def)
  next
    case (Inr r)
    then obtain u s2 where r: "list_del_init p ?s1 = Inr (u, s2)" by (cases r) auto
    have k12: "keeps {p} ?s1 s2" using keeps_list_del_init[of p ?s1] r by simp
    obtain c2 where c2: "cos s2 p = Some c2" "\<not> co_list_entry c2"
      using list_del_init_Inr[OF r] by auto
    let ?s3 = "kfree (stack c) (spin_unlock_irqrestore (thread c) s2)"
    have k23: "keeps {p} s2 ?s3" by (rule keeps_trans_same[OF keeps_unlock keeps_kfree])
    have k34: "keeps {p} ?s3 (kfree_co p ?s3)" by (rule keeps_kfree_co) (simp add: c2)
    have kp: "keeps {p} s (kfree_co p ?s3)"
      by (rule keeps_trans_same[OF keeps_lock], rule keeps_trans_same[OF k12],
          rule keeps_trans_same[OF k23 k34])
    have "cos (kfree_co p ?s3) p = None" by (simp add: kfree_co_def)
    then have "keeps X s (kfree_co p ?s3)" by (intro keeps_freed[OF kp]) simp
    then show ?thesis using r by (simp add: bind_def)
  qed
  show "keeps_res X s
     (if magic c \<noteq> COROUTINE_MAGIC cfg then Inl (BUG 42, s)
      else if mem s (stack_bottom (stack c)) \<noteq> COROUTINE_STACK_BOTTOM_MAGIC cfg
        then Inl (BUG 43, s)
      else if mem s (stack_top cfg (stack c)) \<noteq> COROUTINE_STACK_TOP_MAGIC cfg
        then Inl (BUG 44, s)
      else if ref_count c \<noteq> 0 then Inl (BUG 45, s)
      else
        bind (list_del_init p (spin_lock_irqsave (thread c) s)) (\<lambda>_ s.
          ok (kfree_co p (kfree (stack c) (spin_unlock_irqrestore (thread c) s)))))"
    using tl by simp
qed

lemma keeps_deref: "keeps_res X s (coroutine_deref cfg p s)"
  unfolding coroutine_deref_def
proof (rule keeps_res_get_co)
  fix c assume c: "cos s p = Some c"
  let ?s1 = "put_co p (c\<lparr>ref_count := ref_count c - 1\<rparr>) s"
  have k: "keeps X s ?s1" by (rule keeps_put_co[OF c]) simp_all
  have dl: "keeps_res X s (coroutine_delete cfg p ?s1)" by (rule keeps_pre[OF k keeps_delete])
  show "keeps_res X s (let s1 = ?s1 in if ref_count c - 1 = 0 then coroutine_delete cfg p s1 else ok s1)"
    unfolding Let_def
  proof (cases "ref_count c - 1 = 0")
    case True
    then show "keeps_res X s (if ref_count c - 1 = 0 then coroutine_delete cfg p ?s1 else ok ?s1)"
      using dl by simp
  next
    case False
    then show "keeps_res X s (if ref_count c - 1 = 0 then coroutine_delete cfg p ?s1 else ok ?s1)"
      using k by (simp only: if_False keeps_res_simps)
  qed
qed

lemma keeps_signal: "keeps_res X s (coroutine_signal p s)"
  unfolding coroutine_signal_def
proof (rule keeps_res_get_co)
  fix c assume c: "cos s p = Some c"
  let ?c1 = "c\<lparr>signaled := signaled c + 1\<rparr>"
  let ?t = "thread c"
  let ?s1 = "spin_lock_irqsave ?t (put_co p ?c1 s)"
  let ?k = "\<lambda>(_::unit) s. let s3 = spin_unlock_irqrestore ?t s; th = threads s3 ?t;
                s4 = put_thread ?t (th\<lparr>thread_signaled := thread_signaled th + 1\<rparr>) s3
            in ok (emit (EvWake ?t) s4)"
  have k1: "keeps X s ?s1"
    by (rule keeps_trans_same[OF keeps_put_co[OF c] keeps_lock]) simp_all
  have c1: "cos ?s1 p = Some ?c1" by simp
  have kk: "keeps_res X s2 (?k u s2)" for u s2
    unfolding Let_def keeps_res_simps
    by (rule keeps_trans_same[OF keeps_unlock], rule keeps_trans_same[OF keeps_put_thread keeps_emit]) simp
  have enq: "keeps_res X ?s1 (bind (coroutine_ref p ?s1) (\<lambda>_ s. list_add_tail p ?t s))"
    if nl: "\<not> co_list_entry c"
  proof -
    let ?c2 = "?c1\<lparr>ref_count := ref_count ?c1 + 1\<rparr>"
    let ?s2 = "put_co p ?c2 ?s1"
    have r: "coroutine_ref p ?s1 = ok ?s2" by (simp add: coroutine_ref_def get_co_def bind_def)
    have k2: "keeps X ?s1 ?s2" by (rule keeps_put_co[OF c1]) simp_all
    have "keeps_res X ?s2 (list_add_tail p ?t ?s2)"
      by (rule keeps_list_add_tail) (use nl in simp)
    then have "keeps_res X ?s1 (list_add_tail p ?t ?s2)" by (rule keeps_pre[OF k2])
    then show ?thesis by (simp add: r bind_def ok_def)
  qed
  have "keeps_res X ?s1 (bind (if \<not> co_list_entry c
              then bind (coroutine_ref p ?s1) (\<lambda>_ s. list_add_tail p ?t s) else ok ?s1) ?k)"
    by (rule keeps_res_bind) (use enq kk in auto)
  then have "keeps_res X s (bind (if \<not> co_list_entry c
              then bind (coroutine_ref p ?s1) (\<lambda>_ s. list_add_tail p ?t s) else ok ?s1) ?k)"
    by (rule keeps_pre[OF k1])
  then show "keeps_res X s
          (let t = thread c; s1 = spin_lock_irqsave t (put_co p (c\<lparr>signaled := signaled c + 1\<rparr>) s)
           in bind (if \<not> co_list_entry c then bind (coroutine_ref p s1) (\<lambda>_ s. list_add_tail p t s)
                    else ok s1)
               (\<lambda>_ s. let s3 = spin_unlock_irqrestore t s; th = threads s3 t;
                          s4 = put_thread t (th\<lparr>thread_signaled := thread_signaled th + 1\<rparr>) s3
                      in ok (emit (EvWake t) s4)))"
    by (simp add: Let_def)
qed

lemma keeps_cancel: "keeps_res X s (coroutine_cancel p s)"
  unfolding coroutine_cancel_def
proof (rule keeps_res_get_co)
  fix c assume c: "cos s p = Some c"
  have k: "keeps X s (put_co p (c\<lparr>running := False\<rparr>) s)" by (rule keeps_put_co[OF c]) simp_all
  show "keeps_res X s (coroutine_signal p (put_co p (c\<lparr>running := False\<rparr>) s))"
    by (rule keeps_pre[OF k keeps_signal])
qed

lemma keeps_do_action: "keeps_res X s (do_action cfg a s)"
  by (cases a) (simp_all add: do_action_def keeps_ref keeps_deref keeps_signal keeps_cancel keeps_emit)

lemma keeps_run_actions: "keeps_res X s (run_actions cfg as s)"
proof (induction as arbitrary: s)
  case Nil
  then show ?case by simp
next
  case (Cons a as)
  show ?case by (simp, rule keeps_res_bind[OF keeps_do_action]) (rule Cons.IH)
qed

lemma keeps_yield: "keeps_res X s (coroutine_yield p k s)"
  unfolding coroutine_yield_def
proof (rule keeps_res_get_co)
  fix c assume c: "cos s p = Some c"
  show "keeps_res X s (ok (emit (EvYield p) (put_co p (c\<lparr>ctx := (ctx c)\<lparr>rip := k\<rparr>\<rparr>) s)))"
    unfolding keeps_res_simps
    by (rule keeps_trans_same[OF keeps_put_co[OF c] keeps_emit]) simp_all
qed

lemma keeps_trampoline_finish: "keeps_res X s (trampoline_finish cfg p v s)"
  unfolding trampoline_finish_def
proof (rule keeps_res_get_co)
  fix c assume c: "cos s p = Some c"
  let ?s1 = "emit (EvStoreRet p v) (put_co p (c\<lparr>ret := v\<rparr>) s)"
  let ?s2 = "emit (EvClearRunning p) (put_co p (c\<lparr>ret := v, running := False\<rparr>) ?s1)"
  have k1: "keeps X s ?s1"
    by (rule keeps_trans_same[OF keeps_put_co[OF c] keeps_emit]) simp_all
  have c1: "cos ?s1 p = Some (c\<lparr>ret := v\<rparr>)" by simp
  have k2: "keeps X ?s1 ?s2"
    by (rule keeps_trans_same[OF keeps_put_co[OF c1] keeps_emit]) simp_all
  have "keeps_res X s (coroutine_yield p RipFinalYield ?s2)"
    by (rule keeps_pre[OF keeps_trans_same[OF k1 k2] keeps_yield])
  then show "keeps_res X s
          (let s1 = emit (EvStoreRet p v) (put_co p (c\<lparr>ret := v\<rparr>) s)
           in if magic c \<noteq> COROUTINE_MAGIC cfg then Inl (BUG 77, s1)
              else if mem s1 (stack_bottom (stack c)) \<noteq> COROUTINE_STACK_BOTTOM_MAGIC cfg
                then Inl (BUG 78, s1)
              else if mem s1 (stack_top cfg (stack c)) \<noteq> COROUTINE_STACK_TOP_MAGIC cfg
                then Inl (BUG 79, s1)
              else coroutine_yield p RipFinalYield
                     (emit (EvClearRunning p) (put_co p (c\<lparr>ret := v, running := False\<rparr>) s1)))"
    by (simp add: Let_def)
qed

lemma keeps_run_fun: "keeps_res X s (run_fun cfg code f p a pc s)"
proof (cases "code f pc p a s")
  case (Pair acts out)
  have "keeps_res X s (bind (run_actions cfg acts s) (\<lambda>_ s.
          case out of
            Yield pc' \<Rightarrow> coroutine_yield p (RipInFun f p a pc') s
          | Return v \<Rightarrow> trampoline_finish cfg p v s
          | UserBUG l \<Rightarrow> Inl (BUG l, s)
          | UserBadPtr \<Rightarrow> Inl (BadPtr, s)))"
    by (rule keeps_res_bind[OF keeps_run_actions])
       (cases out; simp add: keeps_yield keeps_trampoline_finish)
  then show ?thesis by (simp add: run_fun_def Pair)
qed

lemma keeps_trampoline: "keeps_res X s (coroutine_trampoline cfg code sp s)"
  unfolding coroutine_trampoline_def Let_def
proof (rule keeps_res_get_co)
  fix c
  have "keeps_res X s (run_fun cfg code (co_fun c) q (arg c) 0 (emit (EvInvoke (co_fun c) q (arg c)) s))" for q
    by (rule keeps_pre[OF keeps_emit keeps_run_fun])
  then show "keeps_res X s
          (if magic c \<noteq> COROUTINE_MAGIC cfg then Inl (BUG 71, s)
           else if mem s (stack_bottom (stack c)) \<noteq> COROUTINE_STACK_BOTTOM_MAGIC cfg
             then Inl (BUG 72, s)
           else if mem s (stack_top cfg (stack c)) \<noteq> COROUTINE_STACK_TOP_MAGIC cfg
             then Inl (BUG 73, s)
           else run_fun cfg code (co_fun c)
                  (mem s (push_bit (COROUTINE_STACK_SHIFT cfg) (drop_bit (COROUTINE_STACK_SHIFT cfg) sp)
                     + COROUTINE_STACK_SIZE cfg - 2 * 8))
                  (arg c) 0
                  (emit (EvInvoke (co_fun c)
                     (mem s (push_bit (COROUTINE_STACK_SHIFT cfg) (drop_bit (COROUTINE_STACK_SHIFT cfg) sp)
                        + COROUTINE_STACK_SIZE cfg - 2 * 8)) (arg c)) s))"
    by simp
qed

lemma keeps_enter: "keeps_res X s (coroutine_enter cfg code p s)"
  unfolding coroutine_enter_def
proof (rule keeps_res_get_co)
  fix c
  have a: "keeps_res X s (coroutine_trampoline cfg code sp (emit (EvEnter p) s))" for sp
    by (rule keeps_pre[OF keeps_emit keeps_trampoline])
  have b: "keeps_res X s (run_fun cfg code f q a pc (emit (EvEnter p) s))" for f q a pc
    by (rule keeps_pre[OF keeps_emit keeps_run_fun])
  show "keeps_res X s
          (if magic c \<noteq> COROUTINE_MAGIC cfg then Inl (BUG 101, s)
           else if \<not> running c then Inl (BUG 102, s)
           else
             let s1 = emit (EvEnter p) s
             in case rip (ctx c) of
                  RipTrampoline \<Rightarrow> coroutine_trampoline cfg code (rsp (ctx c)) s1
                | RipInFun f q a pc \<Rightarrow> run_fun cfg code f q a pc s1
                | RipFinalYield \<Rightarrow> Inl (BadJump, s1)
                | RipUnset \<Rightarrow> Inl (BadJump, s1))"
    by (cases "rip (ctx c)") (simp_all add: Let_def a b)
qed

lemma keeps_walk: "keeps_res X s (next_coroutine_walk ps s)"
proof (induction ps)
  case Nil
  then show ?case by simp
next
  case (Cons a ps)
  have "keeps_res X s (bind (get_co a s) (\<lambda>c s.
       if ref_count c \<noteq> 0 then Inr (a, put_co a (c\<lparr>ref_count := ref_count c + 1\<rparr>) s)
       else next_coroutine_walk ps s))"
    by (rule keeps_res_get_co) (simp add: keeps_put_co Cons.IH)
  then show ?case by simp
qed

lemma walk_result: "next_coroutine_walk ps s = Inr (q, s') \<Longrightarrow> q = 0 \<or> q \<in> set ps"
  by (induction ps) (auto simp: bind_def get_co_def split: option.splits if_splits)

lemma keeps_dec_and_test_signaled: "keeps_res X s (dec_and_test_signaled p s)"
  unfolding dec_and_test_signaled_def
  by (rule keeps_res_get_co) (simp add: keeps_put_co)

lemma keeps_dec_and_test_thread: "keeps_res X s (dec_and_test_thread_signaled t s)"
  by (simp add: dec_and_test_thread_signaled_def Let_def keeps_put_thread)

lemma bind_Inr_iff: "bind r f = Inr (b, s') \<longleftrightarrow> (\<exists>a s1. r = Inr (a, s1) \<and> f a s1 = Inr (b, s'))"
  by (cases r) (auto simp: bind_def)

lemma after_in_distinct:
  "distinct l \<Longrightarrow> q \<in> set (tl (dropWhile (\<lambda>x. x \<noteq> p) l)) \<Longrightarrow> q \<in> set l \<and> q \<noteq> p"
  by (induction l) (auto split: if_splits)

lemma keeps_next_coroutine: "keeps_res X s (coroutine_thread_next_coroutine cfg t prev s)"
proof (cases "prev = 0 \<and> co_list (threads s t) = []")
  case True
  then show ?thesis by (simp add: coroutine_thread_next_coroutine_def)
next
  case False
  let ?s1 = "spin_lock_irqsave t s"
  let ?from = "if prev = 0 then next_coroutine_walk (co_list (threads ?s1 t)) ?s1
                 else bind (get_co prev ?s1) (\<lambda>c s1.
                        if co_list_entry c
                        then next_coroutine_walk
                               (tl (dropWhile (\<lambda>x. x \<noteq> prev) (co_list (threads s1 t)))) s1
                        else if ref_count c \<noteq> 0 then next_coroutine_walk [prev] s1
                        else Inl (OutOfFuel, s1))"
  let ?tail = "\<lambda>r s. let s2 = spin_unlock_irqrestore t s
             in if prev \<noteq> 0 then bind (coroutine_deref cfg prev s2) (\<lambda>_ s. Inr (r, s))
                else Inr (r, s2)"
  have a: "keeps_res X ?s1 ?from"
  proof (cases "prev = 0")
    case True
    then show ?thesis by (simp add: keeps_walk del: next_coroutine_walk.simps)
  next
    case False
    have "keeps_res X ?s1 (bind (get_co prev ?s1) (\<lambda>c s1.
                        if co_list_entry c
                        then next_coroutine_walk
                               (tl (dropWhile (\<lambda>x. x \<noteq> prev) (co_list (threads s1 t)))) s1
                        else if ref_count c \<noteq> 0 then next_coroutine_walk [prev] s1
                        else Inl (OutOfFuel, s1)))"
      by (rule keeps_res_get_co) (simp add: keeps_walk del: next_coroutine_walk.simps)
    then show ?thesis using False by simp
  qed
  have b: "keeps_res X s2 (?tail r s2)" for r s2
  proof (cases "prev = 0")
    case True
    then show ?thesis by (simp add: keeps_unlock)
  next
    case False
    have "keeps_res X (spin_unlock_irqrestore t s2)
            (bind (coroutine_deref cfg prev (spin_unlock_irqrestore t s2)) (\<lambda>_ s. Inr (r, s)))"
      by (rule keeps_res_bind[OF keeps_deref]) simp
    then have "keeps_res X s2
            (bind (coroutine_deref cfg prev (spin_unlock_irqrestore t s2)) (\<lambda>_ s. Inr (r, s)))"
      by (rule keeps_pre[OF keeps_unlock])
    then show ?thesis using False by (simp add: Let_def)
  qed
  have "keeps_res X ?s1 (bind ?from ?tail)"
    by (rule keeps_res_bind[OF a]) (rule b)
  then have "keeps_res X s (bind ?from ?tail)" by (rule keeps_pre[OF keeps_lock])
  moreover have "coroutine_thread_next_coroutine cfg t prev s = bind ?from ?tail"
    using False unfolding coroutine_thread_next_coroutine_def
    by (simp only: if_False Let_def[of "spin_lock_irqsave t s"])
  ultimately show ?thesis by simp
qed

lemma co_list_after_lock [simp]: "co_list (threads (spin_lock_irqsave t s) t') = co_list (threads s t')"
  by (simp add: spin_lock_irqsave_def put_thread_def emit_def)

lemma next_coroutine_member:
  assumes ok: "ready_ok s"
    and pv: "prev = 0 \<or> cos s prev = None \<or> prev \<in> set (co_list (threads s t))"
    and r: "coroutine_thread_next_coroutine cfg t prev s = Inr (q, s')"
  shows "q = 0 \<or> (q \<in> set (co_list (threads s t)) \<and> q \<noteq> prev)"
proof (cases "prev = 0 \<and> co_list (threads s t) = []")
  case True
  then show ?thesis using r by (simp add: coroutine_thread_next_coroutine_def)
next
  case False
  let ?s1 = "spin_lock_irqsave t s"
  let ?from = "if prev = 0 then next_coroutine_walk (co_list (threads ?s1 t)) ?s1
                 else bind (get_co prev ?s1) (\<lambda>c s1.
                        if co_list_entry c
                        then next_coroutine_walk
                               (tl (dropWhile (\<lambda>x. x \<noteq> prev) (co_list (threads s1 t)))) s1
                        else if ref_count c \<noteq> 0 then next_coroutine_walk [prev] s1
                        else Inl (OutOfFuel, s1))"
  let ?tail = "\<lambda>r s. let s2 = spin_unlock_irqrestore t s
             in if prev \<noteq> 0 then bind (coroutine_deref cfg prev s2) (\<lambda>_ s. Inr (r, s))
                else Inr (r, s2)"
  have "coroutine_thread_next_coroutine cfg t prev s = bind ?from ?tail"
    using False unfolding coroutine_thread_next_coroutine_def
    by (simp only: if_False Let_def[of "spin_lock_irqsave t s"])
  then have "bind ?from ?tail = Inr (q, s')" using r by simp
  then obtain q' s2 where f: "?from = Inr (q', s2)" and tl: "?tail q' s2 = Inr (q, s')"
    unfolding bind_Inr_iff by blast
  have qq: "q = q'" using tl by (cases "prev = 0") (auto simp: Let_def bind_Inr_iff)
  have d: "distinct (co_list (threads s t))" using ok unfolding ready_ok_def by blast
  have st: "set (co_list (threads s t)) = {x. linked_in s t x}" using ok unfolding ready_ok_def by blast
  show ?thesis
  proof (cases "prev = 0")
    case True
    then have "next_coroutine_walk (co_list (threads s t)) ?s1 = Inr (q', s2)" using f by simp
    from walk_result[OF this] show ?thesis using True qq by auto
  next
    case nz: False
    then have g: "bind (get_co prev ?s1) (\<lambda>c s1.
                        if co_list_entry c
                        then next_coroutine_walk
                               (tl (dropWhile (\<lambda>x. x \<noteq> prev) (co_list (threads s1 t)))) s1
                        else if ref_count c \<noteq> 0 then next_coroutine_walk [prev] s1
                        else Inl (OutOfFuel, s1)) = Inr (q', s2)" using f by simp
    then obtain c where c: "cos s prev = Some c"
      by (cases "cos s prev") (auto simp: get_co_def bind_def)
    then have "prev \<in> set (co_list (threads s t))" using pv nz by simp
    then have "linked_in s t prev" using st by simp
    then have "co_list_entry c" using c by (simp add: linked_in_def)
    then have "next_coroutine_walk (tl (dropWhile (\<lambda>x. x \<noteq> prev) (co_list (threads s t)))) ?s1 = Inr (q', s2)"
      using g c by (simp add: get_co_def bind_def del: next_coroutine_walk.simps)
    from walk_result[OF this] show ?thesis using after_in_distinct[OF d] qq by blast
  qed
qed

lemma requeue_refines:
  assumes ok: "ready_ok s" and pv: "cos s p = None \<or> p \<in> set (co_list (threads s t))"
  shows "requeue cfg t p s = spec_consume cfg t p s"
proof (cases "cos s p")
  case None
  then show ?thesis
    by (simp add: requeue_def spec_consume_def dec_and_test_signaled_def get_co_def bind_def)
next
  case (Some c)
  have st: "set (co_list (threads s t)) = {x. linked_in s t x}" using ok unfolding ready_ok_def by blast
  have "linked_in s t p" using pv Some st by simp
  then have l: "co_list_entry c" using Some by (simp add: linked_in_def)
  define z where "z = (signaled c - 1 = 0)"
  define s2 where "s2 = spin_lock_irqsave t (put_co p (c\<lparr>signaled := signaled c - 1\<rparr>) s)"
  have d: "bind (dec_and_test_signaled p s) f = f z (put_co p (c\<lparr>signaled := signaled c - 1\<rparr>) s)"
    for f :: "bool \<Rightarrow> state \<Rightarrow> unit res"
    using Some unfolding z_def by (simp add: dec_and_test_signaled_def get_co_def bind_def)
  have e: "list_empty_entry p s2 = Inr (False, s2)"
    using l unfolding s2_def by (simp add: list_empty_entry_def get_co_def bind_def)
  show ?thesis
    unfolding requeue_def spec_consume_def d spec_remove_from_ready_list_def spec_move_to_tail_def
      s2_def[symmetric]
    by (cases "list_del_init p s2"; cases z) (auto simp: bind_def e ok_def)
qed

lemma keeps_requeue:
  assumes ok: "ready_ok s" and pv: "cos s p = None \<or> p \<in> set (co_list (threads s t))"
  shows "keeps_res {p} s (requeue cfg t p s)"
proof (cases "cos s p")
  case None
  then show ?thesis
    by (simp add: requeue_def dec_and_test_signaled_def get_co_def bind_def)
next
  case (Some c)
  have st: "set (co_list (threads s t)) = {x. linked_in s t x}" using ok unfolding ready_ok_def by blast
  have "linked_in s t p" using pv Some st by simp
  then have l: "co_list_entry c" "thread c = t" using Some by (simp_all add: linked_in_def)
  let ?c1 = "c\<lparr>signaled := signaled c - 1\<rparr>"
  define z where "z = (signaled c - 1 = 0)"
  define s2 where "s2 = spin_lock_irqsave t (put_co p ?c1 s)"
  have d: "bind (dec_and_test_signaled p s) f = f z (put_co p ?c1 s)"
    for f :: "bool \<Rightarrow> state \<Rightarrow> unit res"
    using Some unfolding z_def by (simp add: dec_and_test_signaled_def get_co_def bind_def)
  have c2: "cos s2 p = Some ?c1" unfolding s2_def by simp
  have e: "list_empty_entry p s2 = Inr (False, s2)"
    using l c2 by (simp add: list_empty_entry_def get_co_def bind_def)
  have k2: "keeps {p} s s2"
    unfolding s2_def by (rule keeps_trans_same[OF keeps_put_co[OF Some] keeps_lock]) simp_all
  have rm: "keeps_res {p} s2 (bind (list_del_init p s2) (\<lambda>_ s. coroutine_deref cfg p (spin_unlock_irqrestore t s)))"
    by (rule keeps_res_bind[OF keeps_list_del_init]) (rule keeps_pre[OF keeps_unlock keeps_deref])
  have mv: "keeps_res {p} s2 (bind (list_del_init p s2) (\<lambda>_ s. bind (list_add_tail p t s)
              (\<lambda>_ s. ok (spin_unlock_irqrestore t s))))"
  proof (rule keeps_res_bind[OF keeps_list_del_init])
    fix a s3 assume r: "list_del_init p s2 = Inr (a, s3)"
    have c3: "cos s3 p = Some (?c1\<lparr>co_list_entry := False\<rparr>)"
      using list_del_init_Inr[OF r] c2 by auto
    have "keeps_res {p} s3 (list_add_tail p t s3)"
      by (rule keeps_list_add_tail) (use c3 l in auto)
    then show "keeps_res {p} s3 (bind (list_add_tail p t s3) (\<lambda>_ s. ok (spin_unlock_irqrestore t s)))"
      by (rule keeps_res_bind) (simp add: keeps_unlock)
  qed
  have "keeps_res {p} s2 (requeue cfg t p s)"
    unfolding requeue_def d s2_def[symmetric] using rm mv by (cases z) (simp_all add: bind_def e)
  then show ?thesis by (rule keeps_pre[OF k2])
qed

lemma keeps_member:
  assumes "keeps X s s'" and "q = 0 \<or> cos s q = None \<or> q \<in> set (co_list (threads s t))" and "q \<notin> X"
  shows "q = 0 \<or> cos s' q = None \<or> q \<in> set (co_list (threads s' t))"
proof (cases "q = 0 \<or> cos s' q = None")
  case True
  then show ?thesis by blast
next
  case False
  then obtain c' where "cos s' q = Some c'" by auto
  then have "cos s q \<noteq> None" using assms(1) unfolding keeps_def by fastforce
  then have "q \<in> set (co_list (threads s t))" using assms(2) False by auto
  then have "q \<in> set (co_list (threads s' t))" using assms(1,3) False unfolding keeps_def by blast
  then show ?thesis by simp
qed

lemma keeps_ready: "keeps X s s' \<Longrightarrow> ready_ok s \<Longrightarrow> ready_ok s'"
  by (simp add: keeps_def)

lemma co_loop_refines:
  assumes "ready_ok s" and "p = 0 \<or> cos s p = None \<or> p \<in> set (co_list (threads s t))"
  shows "co_loop n cfg code t p s = spec_drain_pass n cfg code t p s
     \<and> (\<forall>u s'. co_loop n cfg code t p s = Inr (u, s') \<longrightarrow> ready_ok s')"
  using assms
proof (induction n arbitrary: p s)
  case 0
  then show ?case by (simp add: ok_def)
next
  case (Suc n)
  show ?case
  proof (cases "p = 0")
    case True
    then show ?thesis using Suc.prems by (simp add: ok_def)
  next
    case nz: False
    show ?thesis
    proof (cases "cos s p")
      case None
      then show ?thesis using nz by (simp add: get_co_def bind_def)
    next
      case (Some c)
      let ?e = "if running c then coroutine_enter cfg code p s else ok s"
      have ke: "keeps_res {} s ?e" by (simp add: keeps_enter)
      show ?thesis
      proof (cases ?e)
        case (Inl e)
        then show ?thesis using nz Some by (simp add: get_co_def bind_def)
      next
        case (Inr r1)
        then obtain u1 s1 where e1: "?e = Inr (u1, s1)" by (cases r1) auto
        have k1: "keeps {} s s1" using ke e1 by simp
        have ok1: "ready_ok s1" by (rule keeps_ready[OF k1 Suc.prems(1)])
        have p1: "p = 0 \<or> cos s1 p = None \<or> p \<in> set (co_list (threads s1 t))"
          by (rule keeps_member[OF k1 Suc.prems(2)]) simp
        show ?thesis
        proof (cases "coroutine_thread_next_coroutine cfg t p s1")
          case (Inl e)
          then show ?thesis using nz Some e1 by (simp add: get_co_def bind_def)
        next
          case (Inr r2)
          then obtain q s2 where e2: "coroutine_thread_next_coroutine cfg t p s1 = Inr (q, s2)"
            by (cases r2) auto
          have k2: "keeps {} s1 s2" using keeps_next_coroutine[of "{}" s1 cfg t p] e2 by simp
          have ok2: "ready_ok s2" by (rule keeps_ready[OF k2 ok1])
          have p2: "p = 0 \<or> cos s2 p = None \<or> p \<in> set (co_list (threads s2 t))"
            by (rule keeps_member[OF k2 p1]) simp
          have p2': "cos s2 p = None \<or> p \<in> set (co_list (threads s2 t))" using p2 nz by simp
          have qm: "q = 0 \<or> (q \<in> set (co_list (threads s1 t)) \<and> q \<noteq> p)"
            using next_coroutine_member[OF ok1 _ e2] p1 nz by blast
          have q2: "q = 0 \<or> cos s2 q = None \<or> q \<in> set (co_list (threads s2 t))"
            by (rule keeps_member[OF k2]) (use qm in auto)
          have rq: "requeue cfg t p s2 = spec_consume cfg t p s2" by (rule requeue_refines[OF ok2 p2'])
          have k3: "keeps_res {p} s2 (requeue cfg t p s2)" by (rule keeps_requeue[OF ok2 p2'])
          show ?thesis
          proof (cases "requeue cfg t p s2")
            case (Inl e)
            then show ?thesis using nz Some e1 e2 rq by (simp add: get_co_def bind_def)
          next
            case (Inr r3)
            then obtain u3 s3 where e3: "requeue cfg t p s2 = Inr (u3, s3)" by (cases r3) auto
            have k3': "keeps {p} s2 s3" using k3 e3 by simp
            have ok3: "ready_ok s3" by (rule keeps_ready[OF k3' ok2])
            have q3: "q = 0 \<or> cos s3 q = None \<or> q \<in> set (co_list (threads s3 t))"
            proof (cases "q = 0")
              case True
              then show ?thesis by simp
            next
              case False
              then have "q \<notin> {p}" using qm by simp
              from keeps_member[OF k3' q2 this] show ?thesis .
            qed
            have l: "co_loop (Suc n) cfg code t p s = co_loop n cfg code t q s3"
              using nz Some e1 e2 e3 by (simp add: get_co_def bind_def)
            have r: "spec_drain_pass (Suc n) cfg code t p s = spec_drain_pass n cfg code t q s3"
              using nz Some e1 e2 e3 rq by (simp add: get_co_def bind_def)
            show ?thesis unfolding l r by (rule Suc.IH[OF ok3 q3])
          qed
        qed
      qed
    qed
  qed
qed

lemma bind_Inl: "bind (Inl e) f = Inl e" by (simp add: bind_def)

lemma bind_Inr: "bind (Inr (a, s)) f = f a s" by (simp add: bind_def)

lemma drain_loop_refines:
  assumes "ready_ok s"
  shows "drain_loop n cfg code t s = spec_drain n cfg code t s
     \<and> (\<forall>u s'. drain_loop n cfg code t s = Inr (u, s')
           \<longrightarrow> ready_ok s' \<and> thread_signaled (threads s' t) = 0)"
  using assms
proof (induction n arbitrary: s)
  case 0
  then show ?case by simp
next
  case (Suc n)
  show ?case
  proof (cases "coroutine_thread_next_coroutine cfg t 0 s")
    case (Inl e)
    then show ?thesis by (simp only: drain_loop.simps spec_drain.simps bind_Inl) simp
  next
    case (Inr r1)
    then obtain q s1 where e1: "coroutine_thread_next_coroutine cfg t 0 s = Inr (q, s1)"
      by (cases r1) auto
    have k1: "keeps {} s s1" using keeps_next_coroutine[of "{}" s cfg t 0] e1 by simp
    have ok1: "ready_ok s1" by (rule keeps_ready[OF k1 Suc.prems])
    have "q = 0 \<or> (q \<in> set (co_list (threads s t)) \<and> q \<noteq> 0)"
      by (rule next_coroutine_member[OF Suc.prems _ e1]) simp
    then have q1: "q = 0 \<or> cos s1 q = None \<or> q \<in> set (co_list (threads s1 t))"
      by (intro keeps_member[OF k1]) auto
    note cl = co_loop_refines[OF ok1 q1, of "Suc n" cfg code]
    have eq: "spec_drain_pass (Suc n) cfg code t q s1 = co_loop (Suc n) cfg code t q s1"
      using conjunct1[OF cl] by (rule sym)
    have l0: "drain_loop (Suc n) cfg code t s
        = bind (co_loop (Suc n) cfg code t q s1) (\<lambda>_ s.
            bind (dec_and_test_thread_signaled t s) (\<lambda>z s.
              if z then ok s else drain_loop n cfg code t s))"
      by (simp only: drain_loop.simps e1 bind_Inr)
    have r0: "spec_drain (Suc n) cfg code t s
        = bind (co_loop (Suc n) cfg code t q s1) (\<lambda>_ s.
            bind (dec_and_test_thread_signaled t s) (\<lambda>z s.
              if z then ok s else spec_drain n cfg code t s))"
      by (simp only: spec_drain.simps e1 bind_Inr eq)
    show ?thesis
    proof (cases "co_loop (Suc n) cfg code t q s1")
      case (Inl e)
      show ?thesis unfolding l0 r0 Inl bind_Inl by simp
    next
      case (Inr r2)
      then obtain u2 s2 where e2: "co_loop (Suc n) cfg code t q s1 = Inr (u2, s2)" by (cases r2) auto
      have ok2: "ready_ok s2" using cl e2 by blast
      let ?th = "threads s2 t"
      define z where "z = (thread_signaled ?th - 1 = 0)"
      define s3 where "s3 = put_thread t (?th\<lparr>thread_signaled := thread_signaled ?th - 1\<rparr>) s2"
      have ok3: "ready_ok s3" unfolding s3_def by (rule keeps_ready[OF keeps_put_thread ok2]) simp
      have d: "dec_and_test_thread_signaled t s2 = Inr (z, s3)"
        by (simp add: dec_and_test_thread_signaled_def Let_def z_def s3_def)
      have z0: "thread_signaled (threads s3 t) = 0" if z
        using that unfolding z_def s3_def by (simp add: put_thread_def)
      have l: "drain_loop (Suc n) cfg code t s = (if z then ok s3 else drain_loop n cfg code t s3)"
        by (simp only: l0 e2 bind_Inr d)
      have r: "spec_drain (Suc n) cfg code t s = (if z then ok s3 else spec_drain n cfg code t s3)"
        by (simp only: r0 e2 bind_Inr d)
      show ?thesis
      proof (cases z)
        case True
        then show ?thesis unfolding l r using ok3 z0 by (simp add: ok_def)
      next
        case False
        then show ?thesis unfolding l r using Suc.IH[OF ok3] by simp
      qed
    qed
  qed
qed

text \<open>
  The agreement of the ready lists with the links holds when a thread has been started,
  and \<open>coroutine_create\<close> on fresh memory, \<open>coroutine_start\<close> and \<open>coroutine_signal\<close>
  keep it.
\<close>

lemma ready_ok_signal:
  "ready_ok s \<Longrightarrow> coroutine_signal p s = Inr (u, s') \<Longrightarrow> ready_ok s'"
  using keeps_signal[where X = "{}" and p = p and s = s] by (simp add: keeps_def)

lemma ready_ok_start:
  assumes "ready_ok s" and "coroutine_start cfg p f a s = Inr (u, s')"
  shows "ready_ok s'"
proof -
  have "keeps_res {} s (coroutine_start cfg p f a s)"
    unfolding coroutine_start_def
  proof (rule keeps_res_get_co)
    fix c assume c: "cos s p = Some c"
    let ?s1 = "put_co p (c\<lparr>co_fun := f, arg := a,
                 ctx := \<lparr>rip = RipTrampoline, rsp = stack_self cfg (stack c)\<rparr>, running := True\<rparr>) s"
    have k: "keeps {} s ?s1" by (rule keeps_put_co[OF c]) simp_all
    have "keeps_res {} s (coroutine_signal p ?s1)" by (rule keeps_pre[OF k keeps_signal])
    then show "keeps_res {} s (if magic c \<noteq> COROUTINE_MAGIC cfg then Inl (BUG 88, s)
       else coroutine_signal p ?s1)" by simp
  qed
  then show ?thesis using assms by (simp add: keeps_def)
qed

lemma ready_ok_create:
  assumes "ready_ok s" and "cos s pco = None"
    and "coroutine_create cfg thr pco pstack s = Inr (r, s')"
  shows "ready_ok s'"
proof -
  have n: "\<not> linked_in s t pco" for t using assms(2) by (simp add: linked_in_def)
  have l: "co_list (threads s' t) = co_list (threads s t)" for t
    using assms(3)
    by (auto simp: coroutine_create_def Let_def put_co_def kfree_co_def kfree_def emit_def
        split: if_splits)
  have k: "linked_in s' t x = linked_in s t x" for t x
    using assms(2,3)
    by (auto simp: coroutine_create_def Let_def put_co_def kfree_co_def kfree_def emit_def
        linked_in_def split: if_splits)
  show ?thesis using assms(1) unfolding ready_ok_def l k .
qed

lemma ready_ok_thread_start:
  assumes "ready_ok s" and "co_list (threads s t) = []"
    and "coroutine_thread_start t cpuno tsk s = Inr (r, s')"
  shows "ready_ok s' \<and> thread_signaled (threads s' t) = 0"
proof -
  have l: "co_list (threads s' t') = co_list (threads s t')" for t'
    using assms(2,3)
    by (auto simp: coroutine_thread_start_def Let_def emit_def put_thread_def split: if_splits)
  have k: "linked_in s' = linked_in s"
    using assms(3)
    by (auto simp: coroutine_thread_start_def Let_def emit_def put_thread_def linked_in_def
        fun_eq_iff split: if_splits)
  have z: "thread_signaled (threads s' t) = 0"
    using assms(3)
    by (auto simp: coroutine_thread_start_def Let_def emit_def put_thread_def split: if_splits)
  show ?thesis using assms(1) z unfolding ready_ok_def l k by simp
qed

text \<open>
  C2. The loop of the worker is the loop of the specification: from a state whose ready
  lists agree with the links of the coroutines and in which the counter of signals of
  the thread is not negative, \<open>coroutine_thread_routine\<close> and \<open>spec_loop\<close> give the same
  result, with the same state, for every fuel. The worker parks until \<open>stopping\<close> or
  \<open>thread.signaled > 0\<close>, exits if \<open>stopping\<close>, enters a coroutine of the ready list only
  if it is running, removes and dereferences it when \<open>dec_and_test\<close> of its counter gives
  zero and moves it to the tail otherwise, and leaves the inner loop exactly when
  \<open>dec_and_test\<close> of the counter of the thread gives zero. The assertions of lines 179 and
  185, which the specification does not have, never fire in such a state.
\<close>

theorem worker_loop_implements_drain:
  assumes "ready_ok s" and "0 \<le> sint (thread_signaled (threads s t))"
  shows "coroutine_thread_routine n cfg code t s = spec_loop n cfg code t s"
  using assms
proof (induction n arbitrary: s)
  case 0
  then show ?case by simp
next
  case (Suc n)
  let ?th = "threads s t"
  have "thread_signaled ?th \<noteq> 0 \<longleftrightarrow> 0 < sint (thread_signaled ?th)"
    using Suc.prems(2) by (auto simp: order_less_le signed_eq_0_iff)
  then have c: "(stopping ?th \<or> 0 < sint (thread_signaled ?th)) = (stopping ?th \<or> thread_signaled ?th \<noteq> 0)"
    by blast
  note dl = drain_loop_refines[OF Suc.prems(1), of "Suc n" cfg code t]
  have "bind (drain_loop (Suc n) cfg code t s) (\<lambda>_ s. coroutine_thread_routine n cfg code t s)
      = bind (spec_drain (Suc n) cfg code t s) (\<lambda>_ s. spec_loop n cfg code t s)"
  proof (cases "drain_loop (Suc n) cfg code t s")
    case (Inl e)
    then have "spec_drain (Suc n) cfg code t s = Inl e" using dl by (simp only:)
    then show ?thesis using Inl by (simp only: bind_def sum.case)
  next
    case (Inr r)
    then obtain u s1 where e1: "drain_loop (Suc n) cfg code t s = Inr (u, s1)" by (cases r) auto
    have e1': "spec_drain (Suc n) cfg code t s = Inr (u, s1)" using dl e1 by (simp only:)
    have "ready_ok s1" "thread_signaled (threads s1 t) = 0" using dl e1 by blast+
    then have "coroutine_thread_routine n cfg code t s1 = spec_loop n cfg code t s1"
      by (intro Suc.IH) simp_all
    then show ?thesis by (simp only: e1 e1' bind_def sum.case prod.case)
  qed
  then show ?case
    unfolding coroutine_thread_routine.simps spec_loop.simps Let_def c by (simp only:)
qed

text \<open>
  The state after \<open>coroutine_start\<close> satisfies the two hypotheses; there the worker runs
  the coroutine twice, moves it to the tail once and removes it once.
\<close>

theorem worker_loop_implements_drain_witness:
  "ready_ok example_started
   \<and> 0 \<le> sint (thread_signaled (threads example_started 100))
   \<and> coroutine_thread_routine 4 example_cfg example_code 100 example_started
       = spec_loop 4 example_cfg example_code 100 example_started"
proof -
  have r: "ready_ok example_started"
    by (auto simp: ready_ok_def linked_in_def example_started_def example_created_def
        example_state_def example_thread_def example_co_def)
  have c: "0 \<le> sint (thread_signaled (threads example_started 100))"
    by (simp add: example_started_def example_created_def example_state_def example_thread_def)
  from worker_loop_implements_drain[OF r c, of 4 example_cfg example_code] r c
  show ?thesis by blast
qed

end
